theory Spec2Isabelle
  imports Main "HOL-Library.Log_Nat"
begin

section \<open>Values of the Python run time\<close>

text \<open>
  \<^verbatim>\<open>app.py\<close> is a script over a pandas data frame and a fitted forecasting model.
  The exceptions it can raise are values of \<open>py_error\<close>; a computation that may raise
  returns \<open>py_error + 'a\<close>.
\<close>

datatype py_error = IndexError | KeyError | ValueError

subsection \<open>Binary64 numbers\<close>

text \<open>
  The rates, the forecasts and every quotient of the script are numpy \<open>float64\<close> values
  (IEEE 754 binary64, round to nearest, ties to even). A finite value is a sign
  (\<open>True\<close> for minus) and a magnitude, so that the two zeros are distinct; the magnitude
  is a rational, which is a double exactly when rounding leaves it unchanged
  (\<open>is_f64\<close>).
\<close>

datatype f64 = Finite bool rat | Infinity bool | NaN

text \<open>Rounding a rational to the nearest integer, a tie to the even neighbour.\<close>

definition round_half_even :: "rat \<Rightarrow> int" where
  "round_half_even m =
     (let f = \<lfloor>m\<rfloor>; r = m - of_int f
      in if r < 1 / 2 then f
         else if 1 / 2 < r then f + 1
         else if even f then f else f + 1)"

text \<open>
  Magnitudes are rounded in units of \<open>2^-1074\<close>, the least positive double. Below
  \<open>2^53\<close> units (the subnormals and the first binade of normal numbers) the doubles are
  the whole numbers of units; from there on the spacing doubles with each binade, so
  that 53 significant bits remain.
\<close>

definition round_units :: "rat \<Rightarrow> int" where
  "round_units y =
     (let k = nat (bitlen \<lfloor>y\<rfloor> - 53)
      in round_half_even (y / 2 ^ k) * 2 ^ k)"

text \<open>
  The greatest double is \<open>(2^53 - 1) * 2^971\<close>; a magnitude that is half a spacing
  above it, or more, rounds to infinity.
\<close>

definition overflow_units :: int where
  "overflow_units = (2 ^ 54 - 1) * 2 ^ 2044"

definition rnd :: "bool \<Rightarrow> rat \<Rightarrow> f64" where
  "rnd s x =
     (let y = x * 2 ^ 1074
      in if of_int overflow_units \<le> y then Infinity s
         else Finite s (of_int (round_units y) / 2 ^ 1074))"

definition is_f64 :: "f64 \<Rightarrow> bool" where
  "is_f64 x = (case x of Finite s m \<Rightarrow> 0 \<le> m \<and> rnd s m = Finite s m | _ \<Rightarrow> True)"

text \<open>The signed value of a sign and a magnitude.\<close>

definition signed :: "bool \<Rightarrow> rat \<Rightarrow> rat" where
  "signed s m = (if s then - m else m)"

text \<open>A decimal literal or an integer, converted to the nearest double.\<close>

definition f64_of_rat :: "rat \<Rightarrow> f64" where
  "f64_of_rat q = rnd (q < 0) \<bar>q\<bar>"

definition f64_of_int :: "int \<Rightarrow> f64" where
  "f64_of_int i = f64_of_rat (of_int i)"

fun fneg :: "f64 \<Rightarrow> f64" where
  "fneg (Finite s m) = Finite (\<not> s) m"
| "fneg (Infinity s) = Infinity (\<not> s)"
| "fneg NaN = NaN"

text \<open>
  Division as numpy performs it: no exception is raised, a nonzero value divided by a
  zero is an infinity, and \<open>0 / 0\<close> and \<open>inf / inf\<close> are not numbers.
\<close>

fun fdiv :: "f64 \<Rightarrow> f64 \<Rightarrow> f64" where
  "fdiv (Finite s m) (Finite t n) =
     (if n = 0 then (if m = 0 then NaN else Infinity (s \<noteq> t))
      else rnd (s \<noteq> t) (m / n))"
| "fdiv (Finite s m) (Infinity t) = Finite (s \<noteq> t) 0"
| "fdiv (Infinity s) (Finite t n) = Infinity (s \<noteq> t)"
| "fdiv (Infinity s) (Infinity t) = NaN"
| "fdiv NaN y = NaN"
| "fdiv x NaN = NaN"

fun fmul :: "f64 \<Rightarrow> f64 \<Rightarrow> f64" where
  "fmul (Finite s m) (Finite t n) = rnd (s \<noteq> t) (m * n)"
| "fmul (Finite s m) (Infinity t) = (if m = 0 then NaN else Infinity (s \<noteq> t))"
| "fmul (Infinity s) (Finite t n) = (if n = 0 then NaN else Infinity (s \<noteq> t))"
| "fmul (Infinity s) (Infinity t) = Infinity (s \<noteq> t)"
| "fmul NaN y = NaN"
| "fmul x NaN = NaN"

text \<open>
  An exact sum of zero is \<open>+0\<close>, unless both operands are negative (then both are
  \<open>-0\<close>).
\<close>

fun fadd :: "f64 \<Rightarrow> f64 \<Rightarrow> f64" where
  "fadd (Finite s m) (Finite t n) =
     (let v = signed s m + signed t n
      in if v = 0 then Finite (s \<and> t) 0 else rnd (v < 0) \<bar>v\<bar>)"
| "fadd (Finite s m) (Infinity t) = Infinity t"
| "fadd (Infinity s) (Finite t n) = Infinity s"
| "fadd (Infinity s) (Infinity t) = (if s = t then Infinity s else NaN)"
| "fadd NaN y = NaN"
| "fadd x NaN = NaN"

definition fsub :: "f64 \<Rightarrow> f64 \<Rightarrow> f64" where
  "fsub x y = fadd x (fneg y)"

text \<open>The comparison \<open>x > y\<close>: false when either side is not a number; the zeros are equal.\<close>

fun fgt :: "f64 \<Rightarrow> f64 \<Rightarrow> bool" where
  "fgt (Finite s m) (Finite t n) = (signed t n < signed s m)"
| "fgt (Finite s m) (Infinity t) = t"
| "fgt (Infinity s) (Finite t n) = (\<not> s)"
| "fgt (Infinity s) (Infinity t) = (\<not> s \<and> t)"
| "fgt NaN y = False"
| "fgt x NaN = False"

definition fzero :: f64 where
  "fzero = Finite False 0"

text \<open>\<open>x == 0\<close>: true of both zeros.\<close>

definition is_zero :: "f64 \<Rightarrow> bool" where
  "is_zero x = (case x of Finite s m \<Rightarrow> m = 0 | _ \<Rightarrow> False)"

text \<open>
  The sum of a float64 array as numpy's \<open>add.reduce\<close> computes it (the pairwise
  summation of \<open>DOUBLE_pairwise_sum\<close>). Fewer than eight values are added one by one
  to \<open>-0.0\<close>. Up to 128 values are added into eight accumulators, which start as the
  first eight values and take the following values in blocks of eight; the accumulators
  are then added in pairs, and the values after the last whole block one by one. More
  than 128 values are cut near the middle, at a multiple of eight, and the sums of the
  two parts are added. The reduction adds the result to its initial value \<open>-0.0\<close>.
\<close>

primrec add_blocks :: "nat \<Rightarrow> f64 list \<Rightarrow> f64 list \<Rightarrow> f64 list" where
  "add_blocks 0 r a = r"
| "add_blocks (Suc k) r a = add_blocks k (map2 fadd r (take 8 a)) (drop 8 a)"

definition add_pairs :: "f64 list \<Rightarrow> f64" where
  "add_pairs r =
     fadd (fadd (fadd (r ! 0) (r ! 1)) (fadd (r ! 2) (r ! 3)))
          (fadd (fadd (r ! 4) (r ! 5)) (fadd (r ! 6) (r ! 7)))"

function pairwise_sum :: "f64 list \<Rightarrow> f64" where
  "pairwise_sum a =
     (if length a < 8 then foldl fadd (Finite True 0) a
      else if length a \<le> 128 then
        foldl fadd
          (add_pairs (add_blocks (length a div 8 - 1) (take 8 a) (drop 8 a)))
          (drop (length a - length a mod 8) a)
      else
        fadd (pairwise_sum (take (length a div 2 - length a div 2 mod 8) a))
             (pairwise_sum (drop (length a div 2 - length a div 2 mod 8) a)))"
  by pat_completeness auto
termination
  by (relation "measure length") auto

definition np_sum :: "f64 list \<Rightarrow> f64" where
  "np_sum a = fadd (Finite True 0) (pairwise_sum a)"

text \<open>
  \<open>future_forecast.mean()\<close>. The forecast of a statsmodels result that was fitted on a
  pandas series is a pandas series, whose \<open>mean\<close> skips the values that are not
  numbers: they count as \<open>0.0\<close> in the sum and are left out of the count, and the mean
  of no value is not a number. The sum is numpy's, and the count is a double. (The
  mean of a numpy array is the same double whenever every value is a number.)
\<close>

definition mean :: "f64 list \<Rightarrow> f64" where
  "mean xs =
     (let values = map (\<lambda>x. if x = NaN then fzero else x) xs;
          count = length (filter (\<lambda>x. x \<noteq> NaN) xs)
      in if count = 0 then NaN
         else fdiv (np_sum values) (f64_of_int (int count)))"

text \<open>
  The arithmetic mean as the specification words it: the exact sum of the values over
  their number, in rational arithmetic. The theorem on \<open>summarize\<close> compares \<open>mean\<close>
  with it.
\<close>

definition arithmetic_mean :: "rat list \<Rightarrow> rat" where
  "arithmetic_mean ms = sum_list ms / of_nat (length ms)"

text \<open>
  \<open>approx d c x v\<close>: the double \<open>x\<close> is positive and stands for the exact sum \<open>v\<close> of
  \<open>c\<close> values between \<open>2^-900\<close> and \<open>2^900\<close> after at most \<open>d\<close> roundings, each of
  which moves a value by at most the fraction \<open>2^-53\<close> of it.
\<close>

definition approx :: "nat \<Rightarrow> nat \<Rightarrow> f64 \<Rightarrow> rat \<Rightarrow> bool" where
  "approx d c x v =
     (\<exists>z. x = Finite False z \<and>
          v * (1 - 1 / 2 ^ 53) ^ d \<le> z \<and> z \<le> v * (1 + 1 / 2 ^ 53) ^ d \<and>
          1 / 2 ^ 900 \<le> v \<and> v \<le> of_nat c * 2 ^ 900)"

subsection \<open>Slices and indexing\<close>

text \<open>
  \<open>xs.iloc[:k]\<close> and \<open>xs.iloc[k:]\<close>: a negative bound counts from the end and every
  bound is clipped to the sequence, so a slice never raises.
\<close>

definition slice_bound :: "'a list \<Rightarrow> int \<Rightarrow> nat" where
  "slice_bound xs k =
     (let n = int (length xs)
      in nat (if k < 0 then max (n + k) 0 else min k n))"

definition iloc_upto :: "'a list \<Rightarrow> int \<Rightarrow> 'a list" where
  "iloc_upto xs k = take (slice_bound xs k) xs"

definition iloc_from :: "'a list \<Rightarrow> int \<Rightarrow> 'a list" where
  "iloc_from xs k = drop (slice_bound xs k) xs"

text \<open>\<open>xs.iloc[i]\<close>: a single position out of range raises \<open>IndexError\<close>.\<close>

definition iloc :: "'a list \<Rightarrow> int \<Rightarrow> py_error + 'a" where
  "iloc xs i =
     (if - int (length xs) \<le> i \<and> i < int (length xs)
      then Inr (xs ! nat (if i < 0 then int (length xs) + i else i))
      else Inl IndexError)"

section \<open>The data frame and the model\<close>

text \<open>
  A time stamp is a number of nanoseconds, as in pandas, taken here as an unbounded
  integer (the time stamps of pandas end in the year 2262). The data frame \<open>df\<close> is its
  rows in file order: the date of the index and the value of the column \<open>USD\<close>. The
  fitted model is the unpickled object; all the script uses of it is
  \<open>model.forecast(steps)\<close>.
\<close>

type_synonym timestamp = int

type_synonym series = "(timestamp \<times> f64) list"

type_synonym fitted_model = "int \<Rightarrow> f64 list"

definition Timedelta_days :: "int \<Rightarrow> int" where
  "Timedelta_days d = d * 86400000000000"

text \<open>\<open>df.index.max()\<close>: the latest date; \<open>NaT\<close> (here \<open>None\<close>) when there is no row.\<close>

definition index_max :: "series \<Rightarrow> timestamp option" where
  "index_max df = (if df = [] then None else Some (Max (set (map fst df))))"

text \<open>
  \<open>pd.date_range(start, periods, freq="D")\<close>: \<open>periods\<close> time stamps one day apart from
  \<open>start\<close> on. A start that is \<open>NaT\<close> and a negative number of periods raise
  \<open>ValueError\<close>.
\<close>

definition date_range :: "timestamp option \<Rightarrow> int \<Rightarrow> py_error + timestamp list" where
  "date_range start periods =
     (case start of
        None \<Rightarrow> Inl ValueError
      | Some t \<Rightarrow>
          if periods < 0 then Inl ValueError
          else Inr (map (\<lambda>i. t + Timedelta_days (int i)) [0..<nat periods]))"

section \<open>Forecast preparation\<close>

text \<open>
  Lines 70 to 88 of the script. \<open>split\<close> is the two slices of lines 70 and 71,
  \<open>project_future\<close> lines 75 to 82 and \<open>summarize\<close> lines 87 and 88.
\<close>

definition split :: "series \<Rightarrow> series \<times> series" where
  "split df = (iloc_upto df (- 216), iloc_from df (- 216))"

definition evaluate_test :: "fitted_model \<Rightarrow> series \<Rightarrow> f64 list" where
  "evaluate_test model test = model (int (length test))"

definition project_future ::
  "fitted_model \<Rightarrow> int \<Rightarrow> series \<Rightarrow> py_error + (f64 list \<times> timestamp list)" where
  "project_future model horizon df =
     (let last_date = index_max df
      in case date_range (map_option (\<lambda>t. t + Timedelta_days 1) last_date) horizon of
           Inl e \<Rightarrow> Inl e
         | Inr future_dates \<Rightarrow> Inr (model horizon, future_dates))"

definition summarize :: "series \<Rightarrow> f64 list \<Rightarrow> py_error + (f64 \<times> f64)" where
  "summarize df future_forecast =
     (case iloc (map snd df) (- 1) of
        Inl e \<Rightarrow> Inl e
      | Inr current_rate \<Rightarrow> Inr (current_rate, mean future_forecast))"

record forecast_result =
  train :: series
  test :: series
  test_forecast :: "f64 list"
  future_dates :: "timestamp list"
  future_forecast :: "f64 list"
  current_rate :: f64
  avg_future :: f64

definition prepare :: "fitted_model \<Rightarrow> int \<Rightarrow> series \<Rightarrow> py_error + forecast_result" where
  "prepare model horizon df =
     (let (tr, te) = split df;
          tf = evaluate_test model te
      in case project_future model horizon df of
           Inl e \<Rightarrow> Inl e
         | Inr (ff, fd) \<Rightarrow>
             (case summarize df ff of
                Inl e \<Rightarrow> Inl e
              | Inr (cr, af) \<Rightarrow>
                  Inr \<lparr>train = tr, test = te, test_forecast = tf, future_dates = fd,
                       future_forecast = ff, current_rate = cr, avg_future = af\<rparr>))"

section \<open>The views\<close>

text \<open>
  What a view shows: \<open>st.success\<close>, \<open>st.warning\<close> and \<open>st.info\<close> boxes with their
  text (pictographs left out). \<open>Savings v\<close> is the success box of line 220, whose text
  is the amount \<open>v\<close> printed with two decimals.
\<close>

datatype message = Success string | Warning string | Info string | Savings f64

subsection \<open>Market Insights\<close>

definition favorable_message :: message where
  "favorable_message =
     Success (''**Highly Favorable Timing**'' @ [CHR 0x0A] @
       ''USD is expected to strengthen, increasing purchasing power '' @
       ''for medical procedures in Malaysia.'')"

definition monitor_message :: message where
  "monitor_message =
     Warning (''**Monitor the Market**'' @ [CHR 0x0A] @
       ''Rates appear stable. Consider flexibility if treatment timing allows.'')"

record market_view =
  metric_current :: f64
  metric_forecast :: f64
  metric_delta :: f64
  action_plan :: message

text \<open>
  Lines 97 to 116: the two metrics, the delta and the advisory box. The views read the
  shared variables \<open>current_rate\<close> and \<open>avg_future\<close> of the script; they are the
  parameters \<open>cur\<close> and \<open>fut\<close> of the definitions below.
\<close>

definition market_insights :: "f64 \<Rightarrow> f64 \<Rightarrow> market_view" where
  "market_insights cur fut =
     \<lparr>metric_current = cur,
      metric_forecast = fut,
      metric_delta = fsub fut cur,
      action_plan =
        (if fgt fut cur then favorable_message else monitor_message)\<rparr>"

subsection \<open>Budget and Hospital Planner\<close>

definition Cost_MYR :: "int list" where
  "Cost_MYR = [2000, 8000, 45000, 7500]"

definition cities :: "string list" where
  "cities = [''Kuala Lumpur'', ''Penang'', ''Johor Bahru'', ''Melaka'']"

definition hospitals :: "(string \<times> string list) list" where
  "hospitals =
     [(''Kuala Lumpur'',
         [''Gleneagles Hospital'', ''Prince Court Medical Centre'', ''Sunway Medical Centre'']),
      (''Penang'',
         [''Island Hospital'', ''Gleneagles Penang'', ''Loh Guan Lye Specialists Centre'']),
      (''Johor Bahru'',
         [''KPJ Johor Specialist Hospital'', ''Columbia Asia Hospital'']),
      (''Melaka'',
         [''Mahkota Medical Centre''])]"

text \<open>\<open>hospitals[location]\<close>: a key that the dictionary lacks raises \<open>KeyError\<close>.\<close>

definition hospitals_lookup :: "string \<Rightarrow> py_error + string list" where
  "hospitals_lookup location =
     (case map_of hospitals location of
        None \<Rightarrow> Inl KeyError
      | Some hs \<Rightarrow> Inr hs)"

text \<open>
  Lines 170 to 177 and 200 to 222: the two rows of \<open>calc_df\<close>, the USD columns of
  \<open>proc_df\<close>, the savings and the box that reports them. The divisions are numpy's: the
  integer cost is converted to a double and divided by the rate.
\<close>

record cost_tables =
  exchange_rate :: "f64 list"
  estimated_cost :: "f64 list"
  usd_current :: "f64 list"
  usd_forecasted :: "f64 list"
  difference :: "f64 list"
  savings :: f64
  savings_box :: message

definition no_advantage_message :: message where
  "no_advantage_message = Info ''No significant exchange advantage detected.''"

definition cost_conversion :: "f64 \<Rightarrow> f64 \<Rightarrow> int \<Rightarrow> cost_tables" where
  "cost_conversion cur fut user_cost_myr =
     (let cost = [fdiv (f64_of_int user_cost_myr) cur,
                  fdiv (f64_of_int user_cost_myr) fut];
          crt = map (\<lambda>c. fdiv (f64_of_int c) cur) Cost_MYR;
          fct = map (\<lambda>c. fdiv (f64_of_int c) fut) Cost_MYR;
          sv = fsub (cost ! 0) (cost ! 1)
      in \<lparr>exchange_rate = [cur, fut],
          estimated_cost = cost,
          usd_current = crt,
          usd_forecasted = fct,
          difference = map (\<lambda>(a, b). fsub a b) (zip crt fct),
          savings = sv,
          savings_box = (if fgt sv fzero then Savings sv else no_advantage_message)\<rparr>)"

text \<open>
  The whole view: the tables, then the hospitals of the chosen city, one info box each
  (lines 254 to 256). The lookup comes last, so its error is the error of the view.
\<close>

definition budget_planner ::
  "f64 \<Rightarrow> f64 \<Rightarrow> int \<Rightarrow> string \<Rightarrow> py_error + (cost_tables \<times> message list)" where
  "budget_planner cur fut user_cost_myr location =
     (let tables = cost_conversion cur fut user_cost_myr
      in case hospitals_lookup location of
           Inl e \<Rightarrow> Inl e
         | Inr hs \<Rightarrow> Inr (tables, map Info hs))"

section \<open>Sample inputs\<close>

text \<open>
  A constant series of \<open>n\<close> daily rows from the epoch on, and a model whose forecast is
  constant; the theorems below are instantiated with them.
\<close>

definition sample_rate :: f64 where
  "sample_rate = Finite False 4"

definition sample_model :: fitted_model where
  "sample_model steps = replicate (nat steps) sample_rate"

definition sample_series :: "nat \<Rightarrow> series" where
  "sample_series n = map (\<lambda>i. (Timedelta_days (int i), sample_rate)) [0..<n]"

text \<open>
  The decimal rates of the scenarios, each the double nearest to the literal.
\<close>

definition usd_4_60 :: f64 where
  "usd_4_60 = f64_of_rat (46 / 10)"

definition usd_4_70 :: f64 where
  "usd_4_70 = f64_of_rat (47 / 10)"

definition usd_4_72 :: f64 where
  "usd_4_72 = f64_of_rat (472 / 100)"

definition usd_4_73 :: f64 where
  "usd_4_73 = f64_of_rat (473 / 100)"

definition usd_4_74 :: f64 where
  "usd_4_74 = f64_of_rat (474 / 100)"

text \<open>
  A model whose forecast rises by a cent a day from \<open>4.04\<close>, each value the double
  nearest to the decimal, and the first eight of these doubles as exact fractions.
\<close>

definition rising_model :: fitted_model where
  "rising_model steps = map (\<lambda>k. f64_of_rat (of_int (403 + k) / 100)) [1..steps]"

definition eight_values :: "rat list" where
  "eight_values =
     [4548635623644201 / 2 ^ 50,
      4559894622712627 / 2 ^ 50,
      4571153621781053 / 2 ^ 50,
      4582412620849480 / 2 ^ 50,
      4593671619917906 / 2 ^ 50,
      4604930618986332 / 2 ^ 50,
      4616189618054758 / 2 ^ 50,
      4627448617123185 / 2 ^ 50]"

text \<open>
  The two doubles that follow \<open>4.7\<close> (printed \<open>4.700000000000001\<close> and
  \<open>4.700000000000002\<close>), and the least positive double (\<open>5e-324\<close>).
\<close>

definition near_rate_low :: f64 where
  "near_rate_low = Finite False (5291729562160334 / 2 ^ 50)"

definition near_rate_high :: f64 where
  "near_rate_high = Finite False (5291729562160335 / 2 ^ 50)"

definition least_double :: f64 where
  "least_double = Finite False (1 / 2 ^ 1074)"

text \<open>
  \<open>shown_as x d\<close>: the finite value \<open>x\<close> is within half a cent of the decimal \<open>d\<close>,
  the amount that a format of two decimals prints for it.
\<close>

definition shown_as :: "f64 \<Rightarrow> rat \<Rightarrow> bool" where
  "shown_as x d = (case x of Finite s m \<Rightarrow> \<bar>signed s m - d\<bar> < 1 / 200 | _ \<Rightarrow> False)"

section \<open>Rounding\<close>

subsection \<open>Rounding to the nearest integer\<close>

text \<open>
  \<open>round_half_even\<close> returns the floor or the next integer, is at most one half away
  from its argument, is monotone, and is decided by the distance to the result: an
  integer at less than one half, or an even integer at exactly one half.
\<close>

lemma rhe_floor_cases:
  "round_half_even m = \<lfloor>m\<rfloor> \<or> round_half_even m = \<lfloor>m\<rfloor> + 1"
  by (simp add: round_half_even_def Let_def)

lemma rhe_error: "\<bar>of_int (round_half_even m) - m\<bar> \<le> 1 / 2"
proof -
  have "of_int \<lfloor>m\<rfloor> \<le> m" and "m < of_int \<lfloor>m\<rfloor> + 1"
    by linarith+
  then show ?thesis
    by (auto simp add: round_half_even_def Let_def)
qed

lemma rhe_nearest:
  assumes "\<bar>m - of_int n\<bar> < 1 / 2"
  shows "round_half_even m = n"
proof -
  have "\<bar>(of_int (round_half_even m) :: rat) - of_int n\<bar> < 1"
    using rhe_error [of m] assms by linarith
  then have "\<bar>round_half_even m - n\<bar> < 1"
    by (metis of_int_abs of_int_diff of_int_less_1_iff)
  then show ?thesis by linarith
qed

lemma rhe_of_int: "round_half_even (of_int n) = n"
  by (rule rhe_nearest) simp

lemma rhe_tie:
  assumes "m = of_int n + 1 / 2"
  shows "round_half_even m = (if even n then n else n + 1)"
proof -
  have "\<lfloor>m\<rfloor> = n"
    using assms by (simp add: floor_unique)
  then show ?thesis
    using assms by (simp add: round_half_even_def Let_def)
qed

lemma rhe_mono:
  assumes "m \<le> m'"
  shows "round_half_even m \<le> round_half_even m'"
proof (cases "\<lfloor>m\<rfloor> = \<lfloor>m'\<rfloor>")
  case True
  then show ?thesis
    using assms by (auto simp add: round_half_even_def Let_def)
next
  case False
  then have "\<lfloor>m\<rfloor> + 1 \<le> \<lfloor>m'\<rfloor>"
    using floor_mono [OF assms] by linarith
  then show ?thesis
    using rhe_floor_cases [of m] rhe_floor_cases [of m'] by linarith
qed

subsection \<open>The spacing of the doubles\<close>

text \<open>
  The exponent \<open>k\<close> of the spacing \<open>2^k\<close> that \<open>round_units\<close> uses at \<open>y\<close>: it is \<open>0\<close>
  below \<open>2^53\<close> units, and in general the \<open>k\<close> with \<open>2^52 * 2^k \<le> y < 2^53 * 2^k\<close>.
  Rounding is monotone, also across binades.
\<close>

lemma scale_small:
  assumes "y < 2 ^ 53"
  shows "nat (bitlen \<lfloor>y :: rat\<rfloor> - 53) = 0"
proof -
  have "\<lfloor>y\<rfloor> < 2 ^ 53"
    using assms by (simp add: floor_less_iff)
  then have "bitlen \<lfloor>y\<rfloor> \<le> 53"
    by (simp add: bitlen_le_iff_power)
  then show ?thesis by simp
qed

lemma scale_binade:
  assumes "2 ^ 52 * 2 ^ k \<le> y" and "y < 2 ^ 53 * 2 ^ k"
  shows "nat (bitlen \<lfloor>y :: rat\<rfloor> - 53) = k"
proof -
  have "\<lfloor>y\<rfloor> < 2 ^ (53 + k)"
    using assms(2) by (simp add: floor_less_iff power_add)
  then have up: "bitlen \<lfloor>y\<rfloor> \<le> 53 + int k"
    by (simp add: bitlen_le_iff_power nat_add_distrib)
  have "(2::int) ^ (52 + k) \<le> \<lfloor>y\<rfloor>"
    using assms(1) by (simp add: le_floor_iff power_add)
  then have "53 + int k \<le> bitlen \<lfloor>y\<rfloor>"
    by (simp add: bitlen_ge_iff_power nat_add_distrib)
  with up show ?thesis by simp
qed

lemma scale_upper:
  "y < 2 ^ 53 * 2 ^ nat (bitlen \<lfloor>y :: rat\<rfloor> - 53)"
proof -
  define k where "k = nat (bitlen \<lfloor>y\<rfloor> - 53)"
  have "bitlen \<lfloor>y\<rfloor> \<le> int (53 + k)"
    by (simp add: k_def)
  then have "\<lfloor>y\<rfloor> < 2 ^ nat (int (53 + k))"
    using bitlen_le_iff_power [of "\<lfloor>y\<rfloor>" "int (53 + k)"] by blast
  then have "\<lfloor>y\<rfloor> < 2 ^ (53 + k)"
    by (simp only: nat_int)
  then have "y < of_int (2 ^ (53 + k))"
    by (simp only: floor_less_iff)
  then show ?thesis
    by (simp add: power_add k_def)
qed

lemma scale_lower:
  assumes "0 < nat (bitlen \<lfloor>y :: rat\<rfloor> - 53)"
  shows "2 ^ 52 * 2 ^ nat (bitlen \<lfloor>y\<rfloor> - 53) \<le> y"
proof -
  define k where "k = nat (bitlen \<lfloor>y\<rfloor> - 53)"
  have "int (53 + k) \<le> bitlen \<lfloor>y\<rfloor>"
    using assms by (simp add: k_def)
  then have "int (53 + k) \<le> 0 \<or> 2 ^ (nat (int (53 + k)) - 1) \<le> \<lfloor>y\<rfloor>"
    using bitlen_ge_iff_power [of "int (53 + k)" "\<lfloor>y\<rfloor>"] by blast
  moreover have "nat (int (53 + k)) - 1 = 52 + k"
    unfolding nat_int by simp
  ultimately have "(2::int) ^ (52 + k) \<le> \<lfloor>y\<rfloor>"
    by simp
  then have "of_int (2 ^ (52 + k)) \<le> y"
    by (simp only: le_floor_iff)
  then show ?thesis
    by (simp add: power_add k_def)
qed

lemma round_units_nonneg:
  assumes "0 \<le> y"
  shows "0 \<le> round_units y"
proof -
  have "0 \<le> y / 2 ^ nat (bitlen \<lfloor>y\<rfloor> - 53)"
    using assms by simp
  then have "round_half_even 0 \<le> round_half_even (y / 2 ^ nat (bitlen \<lfloor>y\<rfloor> - 53))"
    by (rule rhe_mono)
  then have "0 \<le> round_half_even (y / 2 ^ nat (bitlen \<lfloor>y\<rfloor> - 53))"
    using rhe_of_int [of 0] by simp
  then show ?thesis
    by (simp add: round_units_def Let_def)
qed

lemma round_units_binade:
  assumes "2 ^ 52 * 2 ^ k \<le> y" and "y < 2 ^ 53 * 2 ^ k"
  shows "round_units y = round_half_even (y / 2 ^ k) * 2 ^ k"
  using scale_binade [OF assms] by (simp add: round_units_def Let_def)

lemma round_units_small:
  assumes "y < 2 ^ 53"
  shows "round_units y = round_half_even y"
  using scale_small [OF assms] by (simp add: round_units_def Let_def)

lemma round_units_mono:
  assumes "0 \<le> y" and "y \<le> y'"
  shows "round_units y \<le> round_units y'"
proof -
  define k where "k = nat (bitlen \<lfloor>y\<rfloor> - 53)"
  define k' where "k' = nat (bitlen \<lfloor>y'\<rfloor> - 53)"
  have ru: "round_units y = round_half_even (y / 2 ^ k) * 2 ^ k"
    and ru': "round_units y' = round_half_even (y' / 2 ^ k') * 2 ^ k'"
    by (simp_all add: round_units_def Let_def k_def k'_def)
  have "\<lfloor>y\<rfloor> \<le> \<lfloor>y'\<rfloor>"
    using assms(2) by (rule floor_mono)
  then have "bitlen \<lfloor>y\<rfloor> \<le> bitlen \<lfloor>y'\<rfloor>"
    by (simp add: bitlen_def floorlog_mono)
  then have kk: "k \<le> k'"
    by (simp add: k_def k'_def)
  show ?thesis
  proof (cases "k = k'")
    case True
    have "y / 2 ^ k \<le> y' / 2 ^ k"
      using assms(2) by (simp add: divide_right_mono)
    then have "round_half_even (y / 2 ^ k) \<le> round_half_even (y' / 2 ^ k)"
      by (rule rhe_mono)
    then show ?thesis
      using True by (simp add: ru ru')
  next
    case False
    with kk have lt: "k < k'" by simp
    have "y < 2 ^ 53 * 2 ^ k"
      unfolding k_def by (rule scale_upper)
    then have "y / 2 ^ k \<le> of_int (2 ^ 53)"
      by (simp add: divide_le_eq)
    then have "round_half_even (y / 2 ^ k) \<le> round_half_even (of_int (2 ^ 53))"
      by (rule rhe_mono)
    then have "round_half_even (y / 2 ^ k) \<le> 2 ^ 53"
      by (simp only: rhe_of_int)
    then have "round_half_even (y / 2 ^ k) * 2 ^ k \<le> 2 ^ 53 * 2 ^ k"
      by (simp add: mult_right_mono)
    also have "\<dots> = (2::int) ^ (53 + k)"
      by (simp add: power_add)
    also have "\<dots> \<le> 2 ^ (52 + k')"
      using lt by (intro power_increasing) simp_all
    finally have low: "round_units y \<le> 2 ^ (52 + k')"
      by (simp add: ru)
    have "0 < k'" using lt by simp
    then have "2 ^ 52 * 2 ^ k' \<le> y'"
      unfolding k'_def by (rule scale_lower)
    then have "of_int (2 ^ 52) \<le> y' / 2 ^ k'"
      by (simp add: le_divide_eq)
    then have "round_half_even (of_int (2 ^ 52)) \<le> round_half_even (y' / 2 ^ k')"
      by (rule rhe_mono)
    then have "2 ^ 52 \<le> round_half_even (y' / 2 ^ k')"
      by (simp only: rhe_of_int)
    then have "2 ^ 52 * 2 ^ k' \<le> round_half_even (y' / 2 ^ k') * 2 ^ k'"
      by (simp add: mult_right_mono)
    then have "2 ^ (52 + k') \<le> round_units y'"
      by (simp add: ru' power_add)
    with low show ?thesis by linarith
  qed
qed

subsection \<open>Rounding a magnitude\<close>

text \<open>
  \<open>rnd\<close> returns an infinity exactly from the overflow threshold on, and keeps the
  order of magnitudes. \<open>rnd_nearest\<close> checks a rounding without computing it: for
  \<open>x\<close> in the binade of spacing \<open>2^e\<close>, the result is \<open>n * 2^e\<close> when \<open>n\<close> is the
  integer nearest to \<open>x / 2^e\<close> (the even one of two).
\<close>

lemma rnd_cases:
  "rnd s x = Infinity s \<or> rnd s x = Finite s (of_int (round_units (x * 2 ^ 1074)) / 2 ^ 1074)"
  by (simp add: rnd_def Let_def)

lemma rnd_Infinity_iff: "rnd s x = Infinity t \<longleftrightarrow> t = s \<and> of_int overflow_units \<le> x * 2 ^ 1074"
  by (auto simp add: rnd_def Let_def)

lemma rnd_Finite_iff:
  "rnd s x = Finite t z \<longleftrightarrow>
     t = s \<and> x * 2 ^ 1074 < of_int overflow_units \<and>
     z = of_int (round_units (x * 2 ^ 1074)) / 2 ^ 1074"
  by (auto simp add: rnd_def Let_def)

lemma rnd_not_NaN: "rnd s x \<noteq> NaN"
  by (simp add: rnd_def Let_def)

lemma rnd_Finite_nonneg:
  assumes "rnd s x = Finite t z" and "0 \<le> x"
  shows "0 \<le> z"
proof -
  have "0 \<le> round_units (x * 2 ^ 1074)"
    using assms(2) by (intro round_units_nonneg) simp
  then show ?thesis
    using assms(1) by (simp add: rnd_Finite_iff)
qed

lemma rnd_mono_Infinity:
  assumes "rnd s x = Infinity s" and "x \<le> x'"
  shows "rnd s x' = Infinity s"
proof -
  have "x * 2 ^ 1074 \<le> x' * 2 ^ 1074"
    using assms(2) by (simp add: mult_right_mono)
  then show ?thesis
    using assms(1) unfolding rnd_Infinity_iff by linarith
qed

lemma rnd_mono_Finite:
  assumes "rnd s x = Finite t a" and "rnd s' x' = Finite t' b" and "0 \<le> x" and "x \<le> x'"
  shows "a \<le> b"
proof -
  have "x * 2 ^ 1074 \<le> x' * 2 ^ 1074" and "0 \<le> x * 2 ^ 1074"
    using assms(3,4) by (simp_all add: mult_right_mono)
  then have "round_units (x * 2 ^ 1074) \<le> round_units (x' * 2 ^ 1074)"
    using round_units_mono by blast
  then have "(of_int (round_units (x * 2 ^ 1074)) :: rat) / 2 ^ 1074
      \<le> of_int (round_units (x' * 2 ^ 1074)) / 2 ^ 1074"
    by (simp add: divide_right_mono)
  then show ?thesis
    using assms(1,2) unfolding rnd_Finite_iff by simp
qed

lemma powi_shift:
  fixes e :: int
  assumes "- 1074 \<le> e"
  shows "(2::rat) powi e * 2 ^ 1074 = 2 ^ nat (e + 1074)"
proof -
  have "(2::rat) powi e * 2 powi 1074 = 2 powi (e + 1074)"
    by (simp add: power_int_add)
  moreover have "(2::rat) powi (e + 1074) = 2 ^ nat (e + 1074)"
    using assms by (simp add: power_int_def)
  ultimately show ?thesis by simp
qed

lemma overflow_units_ge: "k \<le> 2044 \<Longrightarrow> (2::rat) ^ 53 * 2 ^ k \<le> of_int overflow_units"
proof -
  assume "k \<le> 2044"
  then have "(2::rat) ^ k \<le> 2 ^ 2044"
    by (intro power_increasing) simp_all
  then have "(2::rat) ^ 53 * 2 ^ k \<le> 2 ^ 53 * 2 ^ 2044"
    by (simp only: mult_le_cancel_left_pos zero_less_power zero_less_numeral)
  also have "\<dots> \<le> of_int overflow_units"
    by (simp add: overflow_units_def)
  finally show ?thesis .
qed

lemma rnd_normal:
  fixes e :: int
  assumes "- 1074 \<le> e" and "e \<le> 970"
    and "2 ^ 52 * 2 powi e \<le> x" and "x < 2 ^ 53 * 2 powi e"
    and "round_half_even (x / 2 powi e) = n"
  shows "rnd s x = Finite s (of_int n * 2 powi e)"
proof -
  define k where "k = nat (e + 1074)"
  define y where "y = x * 2 ^ 1074"
  have q: "(2::rat) powi e * 2 ^ 1074 = 2 ^ k"
    unfolding k_def using assms(1) by (rule powi_shift)
  have qpos: "0 < (2::rat) powi e"
    by simp
  have "2 ^ 52 * 2 powi e * 2 ^ 1074 \<le> x * 2 ^ 1074"
    using assms(3) by (simp only: mult_le_cancel_right_pos zero_less_power zero_less_numeral)
  then have lo: "2 ^ 52 * 2 ^ k \<le> y"
    using q by (simp add: y_def mult.assoc)
  have "x * 2 ^ 1074 < 2 ^ 53 * 2 powi e * 2 ^ 1074"
    using assms(4) by (simp only: mult_less_cancel_right_pos zero_less_power zero_less_numeral)
  then have hi: "y < 2 ^ 53 * 2 ^ k"
    using q by (simp add: y_def mult.assoc)
  have "y / 2 ^ k = x * 2 ^ 1074 / (2 powi e * 2 ^ 1074)"
    by (simp only: y_def q)
  also have "\<dots> = x / 2 powi e"
    by simp
  finally have "round_half_even (y / 2 ^ k) = n"
    using assms(5) by simp
  then have ru: "round_units y = n * 2 ^ k"
    using round_units_binade [OF lo hi] by simp
  have "k \<le> 2044"
    using assms(2) by (simp add: k_def)
  then have "y < of_int overflow_units"
    using hi overflow_units_ge [of k] by linarith
  moreover have "(of_int (n * 2 ^ k) :: rat) / 2 ^ 1074 = of_int n * 2 powi e"
    using q by (simp add: field_simps)
  ultimately show ?thesis
    using ru by (simp add: rnd_def Let_def y_def)
qed

lemma rhe_half_even:
  assumes "\<bar>m - of_int n\<bar> = 1 / 2" and "even n"
  shows "round_half_even m = n"
proof (cases "m = of_int n + 1 / 2")
  case True
  then show ?thesis
    using rhe_tie [of m n] assms(2) by simp
next
  case False
  then have "m = of_int (n - 1) + 1 / 2"
    using assms(1) by (simp add: abs_if split: if_splits)
  then show ?thesis
    using rhe_tie [of m "n - 1"] assms(2) by simp
qed

lemma rnd_nearest:
  fixes e :: int
  assumes "- 1074 \<le> e" and "e \<le> 970"
    and "2 ^ 52 * 2 powi e \<le> x" and "x < 2 ^ 53 * 2 powi e"
    and "\<bar>x / 2 powi e - of_int n\<bar> < 1 / 2 \<or>
         \<bar>x / 2 powi e - of_int n\<bar> = 1 / 2 \<and> even n"
  shows "rnd s x = Finite s (of_int n * 2 powi e)"
  using assms(5) rhe_nearest [of "x / 2 powi e" n] rhe_half_even [of "x / 2 powi e" n]
    rnd_normal [OF assms(1-4)]
  by blast

subsection \<open>Signs of sums and differences\<close>

text \<open>
  Doubles are whole numbers of units, so the difference of two distinct doubles is at
  least one unit and does not round to zero: for doubles, \<open>x - y > 0\<close> and \<open>x > y\<close> are
  the same test (\<open>fsub_sign\<close>).
\<close>

lemma round_units_pos:
  assumes "1 \<le> y"
  shows "1 \<le> round_units y"
proof -
  have "round_units 1 \<le> round_units y"
    using assms by (intro round_units_mono) simp_all
  moreover have "round_units 1 = 1"
    using round_units_small [of 1] rhe_of_int [of 1] by simp
  ultimately show ?thesis by simp
qed

lemma rnd_pos:
  assumes "1 / 2 ^ 1074 \<le> x"
  shows "rnd s x = Infinity s \<or> (\<exists>z. 0 < z \<and> rnd s x = Finite s z)"
proof -
  have "1 \<le> x * 2 ^ 1074"
    using assms by (simp add: divide_le_eq)
  then have "1 \<le> round_units (x * 2 ^ 1074)"
    by (rule round_units_pos)
  then have "0 < (of_int (round_units (x * 2 ^ 1074)) :: rat) / 2 ^ 1074"
    by simp
  then show ?thesis
    using rnd_cases [of s x] by blast
qed

lemma f64_of_int_pos:
  assumes "1 \<le> c"
  shows "f64_of_int c = Infinity False \<or> (\<exists>m. 0 < m \<and> f64_of_int c = Finite False m)"
proof -
  have "1 / 2 ^ 1074 \<le> (1::rat)"
    by simp
  also have "\<dots> \<le> of_int c"
    using assms by simp
  finally have "rnd False (of_int c) = Infinity False \<or>
      (\<exists>z. 0 < z \<and> rnd False (of_int c) = Finite False z)"
    by (rule rnd_pos)
  moreover have "f64_of_int c = rnd False (of_int c)"
    using assms by (simp add: f64_of_int_def f64_of_rat_def)
  ultimately show ?thesis by simp
qed

lemma is_f64_FiniteD:
  assumes "is_f64 (Finite s m)"
  shows "0 \<le> m" and "m * 2 ^ 1074 = of_int (round_units (m * 2 ^ 1074))"
  using assms by (simp_all add: is_f64_def rnd_Finite_iff)

lemma fgt_zero_Finite: "fgt (Finite s m) fzero \<longleftrightarrow> 0 < signed s m"
  by (simp add: fzero_def signed_def)

lemma positive_f64_cases:
  assumes "is_f64 x" and "fgt x fzero"
  shows "x = Infinity False \<or> (\<exists>m. 0 < m \<and> x = Finite False m)"
proof (cases x)
  case (Finite s m)
  then have "0 \<le> m" and "0 < signed s m"
    using assms is_f64_FiniteD(1) fgt_zero_Finite by auto
  then show ?thesis
    using Finite by (cases s) (simp_all add: signed_def)
next
  case (Infinity s)
  then show ?thesis
    using assms(2) by (simp add: fzero_def)
next
  case NaN
  then show ?thesis
    using assms(2) by simp
qed

lemma fadd_nonpos:
  assumes "signed s m + signed t n \<le> 0"
  shows "\<not> fgt (fadd (Finite s m) (Finite t n)) fzero"
proof (cases "signed s m + signed t n = 0")
  case True
  then show ?thesis
    by (simp add: fzero_def signed_def)
next
  case False
  define v where "v = signed s m + signed t n"
  have neg: "v < 0"
    using assms False by (simp add: v_def)
  have eq: "fadd (Finite s m) (Finite t n) = rnd True \<bar>v\<bar>"
    using neg False by (simp add: v_def Let_def)
  show ?thesis
  proof (cases "rnd True \<bar>v\<bar>")
    case (Finite u z)
    then have "u = True" and "0 \<le> z"
      using rnd_Finite_nonneg [of True "\<bar>v\<bar>" u z] by (simp_all add: rnd_Finite_iff)
    then show ?thesis
      using eq Finite by (simp add: fzero_def signed_def)
  next
    case (Infinity u)
    then have "u = True"
      by (simp add: rnd_Infinity_iff)
    then show ?thesis
      using eq Infinity by (simp add: fzero_def)
  next
    case NaN
    then show ?thesis
      using eq by simp
  qed
qed

lemma signed_mult: "signed s m * u = signed s (m * u)"
  by (simp add: signed_def)

lemma signed_of_int: "\<exists>w. signed s (of_int a) = of_int w"
proof (cases s)
  case True
  then have "signed s (of_int a) = of_int (- a)"
    by (simp add: signed_def)
  then show ?thesis by blast
next
  case False
  then have "signed s (of_int a) = of_int a"
    by (simp add: signed_def)
  then show ?thesis by blast
qed

lemma fadd_pos:
  assumes "is_f64 (Finite s m)" and "is_f64 (Finite t n)" and "0 < signed s m + signed t n"
  shows "fgt (fadd (Finite s m) (Finite t n)) fzero"
proof -
  define v where "v = signed s m + signed t n"
  define U :: rat where "U = 2 ^ 1074"
  have Upos: "0 < U"
    by (simp add: U_def)
  obtain a b :: int where a: "m * U = of_int a" and b: "n * U = of_int b"
    unfolding U_def
    using is_f64_FiniteD(2) [OF assms(1)] is_f64_FiniteD(2) [OF assms(2)] by blast
  obtain a' b' :: int where a': "signed s (m * U) = of_int a'" and b': "signed t (n * U) = of_int b'"
    using signed_of_int [of s a] signed_of_int [of t b] a b by auto
  have "v * U = signed s (m * U) + signed t (n * U)"
    by (simp add: v_def signed_mult distrib_right)
  also have "\<dots> = of_int (a' + b')"
    by (simp add: a' b')
  finally have w: "v * U = of_int (a' + b')" .
  have pos: "0 < v"
    using assms(3) by (simp add: v_def)
  then have "0 < v * U"
    using Upos by simp
  then have "1 \<le> a' + b'"
    using w by simp
  then have "(1::rat) \<le> of_int (a' + b')"
    by (simp only: of_int_1_le_iff)
  then have "1 \<le> v * U"
    using w by simp
  then have "1 / U \<le> v"
    using Upos by (simp add: divide_le_eq)
  then have "1 / 2 ^ 1074 \<le> \<bar>v\<bar>"
    using pos by (simp add: U_def)
  then have "rnd False \<bar>v\<bar> = Infinity False \<or> (\<exists>z. 0 < z \<and> rnd False \<bar>v\<bar> = Finite False z)"
    by (rule rnd_pos)
  moreover have "fadd (Finite s m) (Finite t n) = rnd False \<bar>v\<bar>"
    using pos by (simp add: v_def Let_def)
  ultimately show ?thesis
    by (auto simp add: fzero_def signed_def)
qed

lemma is_f64_fneg: "is_f64 (fneg x) = is_f64 x"
  by (cases x) (simp_all add: is_f64_def rnd_Finite_iff)

lemma fsub_sign:
  assumes "is_f64 x" and "is_f64 y"
  shows "fgt (fsub x y) fzero = fgt x y"
proof (cases x)
  case xf: (Finite s m)
  show ?thesis
  proof (cases y)
    case yf: (Finite t n)
    have ny: "is_f64 (Finite (\<not> t) n)"
      using assms(2) is_f64_fneg [of y] yf by simp
    have sg: "signed (\<not> t) n = - signed t n"
      by (simp add: signed_def)
    show ?thesis
    proof (cases "0 < signed s m - signed t n")
      case True
      then have "fgt (fadd (Finite s m) (Finite (\<not> t) n)) fzero"
        using fadd_pos [of s m "\<not> t" n] assms(1) ny xf sg by simp
      then show ?thesis
        using True by (simp add: fsub_def xf yf)
    next
      case False
      then have "\<not> fgt (fadd (Finite s m) (Finite (\<not> t) n)) fzero"
        using fadd_nonpos [of s m "\<not> t" n] sg by simp
      then show ?thesis
        using False by (simp add: fsub_def xf yf)
    qed
  next
    case (Infinity t)
    then show ?thesis
      using xf by (simp add: fsub_def fzero_def)
  next
    case NaN
    then show ?thesis
      using xf by (simp add: fsub_def)
  qed
next
  case xi: (Infinity s)
  then show ?thesis
    by (cases y) (auto simp add: fsub_def fzero_def)
next
  case NaN
  then show ?thesis
    by (simp add: fsub_def)
qed

subsection \<open>Quotients by ordered rates\<close>

text \<open>
  Dividing a positive cost by the larger of two positive rates gives the smaller
  quotient, before and after rounding: if \<open>fut > cur\<close> does not hold, then
  \<open>C / cur - C / fut\<close> is not positive.
\<close>

lemma fdiv_antimono:
  assumes C: "C = Infinity False \<or> (\<exists>m. 0 < m \<and> C = Finite False m)"
    and cur: "cur = Infinity False \<or> (\<exists>a. 0 < a \<and> cur = Finite False a)"
    and fut: "fut = Infinity False \<or> (\<exists>b. 0 < b \<and> fut = Finite False b)"
    and le: "\<not> fgt fut cur"
  shows "\<not> fgt (fsub (fdiv C cur) (fdiv C fut)) fzero"
proof (cases "C = Infinity False")
  case True
  then show ?thesis
    using cur fut by (auto simp add: fsub_def fzero_def)
next
  case False
  then obtain m where m: "0 < m" "C = Finite False m"
    using C by blast
  show ?thesis
  proof (cases "cur = Infinity False")
    case cinf: True
    show ?thesis
    proof (cases "fut = Infinity False")
      case True
      then show ?thesis
        using cinf m by (simp add: fsub_def fzero_def signed_def)
    next
      case False
      then obtain b where b: "0 < b" "fut = Finite False b"
        using fut by blast
      have q: "fdiv C fut = rnd False (m / b)"
        using m b by simp
      show ?thesis
      proof (cases "rnd False (m / b)")
        case (Finite u z)
        then have "u = False" and "0 \<le> z"
          using rnd_Finite_nonneg [of False "m / b" u z] m(1) b(1)
          by (simp_all add: rnd_Finite_iff)
        then have "signed False 0 + signed True z \<le> 0"
          by (simp add: signed_def)
        then have "\<not> fgt (fadd (Finite False 0) (Finite True z)) fzero"
          by (rule fadd_nonpos)
        then show ?thesis
          using cinf m q Finite \<open>u = False\<close> by (simp add: fsub_def)
      next
        case (Infinity u)
        then have "u = False"
          by (simp add: rnd_Infinity_iff)
        then show ?thesis
          using cinf m q Infinity by (simp add: fsub_def fzero_def)
      next
        case NaN
        then show ?thesis
          using rnd_not_NaN by blast
      qed
    qed
  next
    case False
    then obtain a where a: "0 < a" "cur = Finite False a"
      using cur by blast
    have fut_fin: "fut \<noteq> Infinity False"
      using le a by auto
    then obtain b where b: "0 < b" "fut = Finite False b"
      using fut by blast
    have ba: "b \<le> a"
      using le a b by (simp add: signed_def)
    have qc: "fdiv C cur = rnd False (m / a)" and qa: "fdiv C fut = rnd False (m / b)"
      using m a b by simp_all
    have mono: "m / a \<le> m / b" and nonneg: "0 \<le> m / a"
      using ba a(1) b(1) m(1) by (simp_all add: frac_le)
    show ?thesis
    proof (cases "rnd False (m / b)")
      case fb: (Finite u z2)
      then have u: "u = False"
        by (simp add: rnd_Finite_iff)
      show ?thesis
      proof (cases "rnd False (m / a)")
        case fa: (Finite u' z1)
        then have u': "u' = False"
          by (simp add: rnd_Finite_iff)
        have "z1 \<le> z2"
          using rnd_mono_Finite [OF fa fb nonneg mono] .
        then have "signed False z1 + signed True z2 \<le> 0"
          by (simp add: signed_def)
        then have "\<not> fgt (fadd (Finite False z1) (Finite True z2)) fzero"
          by (rule fadd_nonpos)
        then show ?thesis
          using qc qa fa fb u u' by (simp add: fsub_def)
      next
        case (Infinity u')
        then have "rnd False (m / a) = Infinity False"
          by (simp add: rnd_Infinity_iff)
        then have "rnd False (m / b) = Infinity False"
          using mono by (rule rnd_mono_Infinity)
        then show ?thesis
          using fb by simp
      next
        case NaN
        then show ?thesis
          using rnd_not_NaN by blast
      qed
    next
      case (Infinity u)
      then have ib: "rnd False (m / b) = Infinity False"
        by (simp add: rnd_Infinity_iff)
      show ?thesis
        using qc qa ib rnd_cases [of False "m / a"]
        by (auto simp add: fsub_def fzero_def)
    next
      case NaN
      then show ?thesis
        using rnd_not_NaN by blast
    qed
  qed
qed

lemma fgt_zero_rnd: "fgt fzero (rnd s z) = fgt (rnd (\<not> s) z) fzero"
  by (cases s) (simp_all add: rnd_def Let_def fzero_def signed_def)

lemma fsub_swap: "fgt fzero (fsub x y) = fgt (fsub y x) fzero"
proof (cases x)
  case xf: (Finite s m)
  show ?thesis
  proof (cases y)
    case yf: (Finite t n)
    define v where "v = signed s m - signed t n"
    have a: "signed s m + signed (\<not> t) n = v" and b: "signed t n + signed (\<not> s) m = - v"
      by (simp_all add: v_def signed_def)
    show ?thesis
    proof (cases "v = 0")
      case True
      then show ?thesis
        using a b by (simp add: fsub_def xf yf fzero_def signed_def)
    next
      case False
      have "fsub x y = fadd (Finite s m) (Finite (\<not> t) n)"
        by (simp add: fsub_def xf yf)
      also have "\<dots> = rnd (v < 0) \<bar>v\<bar>"
        using False by (simp add: a)
      finally have xy: "fsub x y = rnd (v < 0) \<bar>v\<bar>" .
      have "fsub y x = fadd (Finite t n) (Finite (\<not> s) m)"
        by (simp add: fsub_def xf yf)
      also have "\<dots> = rnd (- v < 0) \<bar>- v\<bar>"
        using False by (simp add: b)
      also have "\<dots> = rnd (\<not> v < 0) \<bar>v\<bar>"
        using False by (simp add: less_le not_le)
      finally have yx: "fsub y x = rnd (\<not> v < 0) \<bar>v\<bar>" .
      show ?thesis
        by (simp only: xy yx fgt_zero_rnd)
    qed
  next
    case (Infinity t)
    then show ?thesis
      using xf by (simp add: fsub_def fzero_def)
  next
    case NaN
    then show ?thesis
      using xf by (simp add: fsub_def fzero_def)
  qed
next
  case (Infinity s)
  then show ?thesis
    by (cases y) (auto simp add: fsub_def fzero_def)
next
  case NaN
  then show ?thesis
    by (cases y) (simp_all add: fsub_def fzero_def)
qed

subsection \<open>The rounding error\<close>

text \<open>
  In the range of the normal numbers a rounding moves a magnitude by at most the
  fraction \<open>2^-53\<close> of it, and an integer below \<open>2^53\<close> is a double. Hence dividing a
  cost by a rate and multiplying by the rate again returns the cost up to the fraction
  \<open>2^-51\<close>, as long as neither operation leaves that range.
\<close>

lemma round_units_error:
  assumes "2 ^ 52 \<le> y"
  shows "\<bar>of_int (round_units y) - y\<bar> * 2 ^ 53 \<le> y"
proof -
  define k where "k = nat (bitlen \<lfloor>y\<rfloor> - 53)"
  define p :: rat where "p = 2 ^ k"
  have ppos: "0 < p"
    by (simp add: p_def)
  define d where "d = of_int (round_half_even (y / p)) - y / p"
  have "\<bar>d\<bar> \<le> 1 / 2"
    unfolding d_def by (rule rhe_error)
  then have "\<bar>d\<bar> * p \<le> p / 2"
    using ppos by (simp add: mult_right_mono)
  moreover have "of_int (round_units y) - y = d * p"
    using ppos by (simp add: round_units_def Let_def k_def [symmetric] p_def [symmetric] d_def
        left_diff_distrib)
  ultimately have err: "\<bar>of_int (round_units y) - y\<bar> \<le> p / 2"
    using ppos by (simp add: abs_mult)
  have "2 ^ 52 * p \<le> y"
  proof (cases "k = 0")
    case True
    then show ?thesis
      using assms by (simp add: p_def)
  next
    case False
    then have "0 < nat (bitlen \<lfloor>y\<rfloor> - 53)"
      by (simp add: k_def)
    then show ?thesis
      unfolding p_def k_def by (rule scale_lower)
  qed
  then show ?thesis
    using err by simp
qed

lemma rnd_error:
  assumes "1 / 2 ^ 1022 \<le> x" and "x \<le> 2 ^ 1023"
  shows "\<exists>z. rnd s x = Finite s z \<and> \<bar>z - x\<bar> * 2 ^ 53 \<le> x"
proof -
  define U :: rat where "U = 2 ^ 1074"
  have Upos: "0 < U"
    by (simp add: U_def)
  define y where "y = x * U"
  have "1 / 2 ^ 1022 * U \<le> y"
    unfolding y_def using assms(1) Upos by (simp only: mult_le_cancel_right_pos)
  moreover have "1 / 2 ^ 1022 * U = 2 ^ 52"
    by (simp add: U_def)
  ultimately have lo: "2 ^ 52 \<le> y"
    by simp
  have "y \<le> 2 ^ 1023 * U"
    unfolding y_def using assms(2) Upos by (simp only: mult_le_cancel_right_pos)
  moreover have "2 ^ 1023 * U < of_int overflow_units"
    by (simp add: U_def overflow_units_def)
  ultimately have fin: "y < of_int overflow_units"
    by simp
  define z where "z = of_int (round_units y) / U"
  have r: "rnd s x = Finite s z"
    using fin by (simp add: rnd_def Let_def z_def y_def U_def)
  have "\<bar>of_int (round_units y) - y\<bar> * 2 ^ 53 \<le> y"
    using lo by (rule round_units_error)
  moreover have "of_int (round_units y) - y = (z - x) * U"
    using Upos by (simp add: z_def y_def left_diff_distrib)
  ultimately have "\<bar>z - x\<bar> * U * 2 ^ 53 \<le> x * U"
    using Upos by (simp add: abs_mult y_def)
  then have "(\<bar>z - x\<bar> * 2 ^ 53) * U \<le> x * U"
    by (simp add: mult.commute mult.left_commute)
  then have "\<bar>z - x\<bar> * 2 ^ 53 \<le> x"
    using Upos by (simp only: mult_le_cancel_right_pos)
  with r show ?thesis by blast
qed

lemma round_units_exact:
  assumes "0 \<le> n" and "n < 2 ^ 53"
  shows "round_units (of_int n * 2 ^ j) = n * 2 ^ j"
proof (cases "n = 0")
  case True
  then show ?thesis
    using round_units_small [of 0] rhe_of_int [of 0] by simp
next
  case False
  with assms(1) have npos: "0 < n" by simp
  define b where "b = nat (bitlen n)"
  have bb: "bitlen n = int b"
    by (simp add: b_def bitlen_nonneg)
  have "2 ^ nat (bitlen n - 1) \<le> n" and hi: "n < 2 ^ b"
    using bitlen_bounds [OF npos] by (simp_all add: b_def)
  moreover have "1 \<le> bitlen n"
    using npos bitlen_eq_zero_iff [of n] bitlen_nonneg [of n] by linarith
  ultimately have b1: "1 \<le> b" and lo: "2 ^ (b - 1) \<le> n"
    by (simp_all add: b_def nat_diff_distrib)
  have "bitlen n \<le> 53"
    using assms(2) by (simp add: bitlen_le_iff_power)
  then have b53: "b \<le> 53"
    by (simp add: b_def)
  define y :: rat where "y = of_int n * 2 ^ j"
  have yi: "y = of_int (n * 2 ^ j)"
    by (simp add: y_def)
  show ?thesis
  proof (cases "b + j \<le> 53")
    case True
    have "n * 2 ^ j < 2 ^ b * 2 ^ j"
      using hi by simp
    also have "\<dots> = (2::int) ^ (b + j)"
      by (simp add: power_add)
    also have "\<dots> \<le> 2 ^ 53"
      using True by (intro power_increasing) simp_all
    finally have "y < of_int (2 ^ 53)"
      unfolding yi by (simp only: of_int_less_iff)
    then have "y < 2 ^ 53"
      by simp
    then have "round_units y = round_half_even y"
      by (rule round_units_small)
    also have "\<dots> = n * 2 ^ j"
      unfolding yi by (rule rhe_of_int)
    finally show ?thesis
      by (simp only: y_def)
  next
    case False
    define k where "k = b + j - 53"
    have kj: "k \<le> j" and bk: "b + j = 53 + k"
      using False b53 by (simp_all add: k_def)
    have ex: "b - 1 + j = 52 + k"
      using bk b1 by simp
    have "(2::int) ^ 52 * 2 ^ k = 2 ^ (52 + k)"
      by (simp only: power_add)
    also have "\<dots> = 2 ^ (b - 1) * 2 ^ j"
      by (simp only: power_add [symmetric] ex)
    finally have "(2::int) ^ 52 * 2 ^ k = 2 ^ (b - 1) * 2 ^ j" .
    moreover have "(2::int) ^ (b - 1) * 2 ^ j \<le> n * 2 ^ j"
      using lo by simp
    ultimately have "(2::int) ^ 52 * 2 ^ k \<le> n * 2 ^ j"
      by (simp only:)
    then have "of_int (2 ^ 52 * 2 ^ k) \<le> y"
      unfolding yi by (simp only: of_int_le_iff)
    then have lo': "2 ^ 52 * 2 ^ k \<le> y"
      by simp
    have "n * 2 ^ j < 2 ^ b * 2 ^ j"
      using hi by simp
    also have "\<dots> = (2::int) ^ (b + j)"
      by (simp only: power_add)
    also have "\<dots> = (2::int) ^ 53 * 2 ^ k"
      by (simp only: bk power_add)
    finally have "y < of_int (2 ^ 53 * 2 ^ k)"
      unfolding yi by (simp only: of_int_less_iff)
    then have hi': "y < 2 ^ 53 * 2 ^ k"
      by simp
    obtain i where ji: "j = k + i"
      using kj by (metis le_add_diff_inverse)
    have "y / 2 ^ k = of_int (n * 2 ^ i)"
      by (simp add: y_def ji power_add)
    then have "round_half_even (y / 2 ^ k) = n * 2 ^ i"
      by (simp only: rhe_of_int)
    then have "round_units y = n * 2 ^ i * 2 ^ k"
      using round_units_binade [OF lo' hi'] by simp
    also have "\<dots> = n * 2 ^ j"
      by (simp add: ji power_add)
    finally show ?thesis
      by (simp only: y_def)
  qed
qed

lemma f64_of_int_exact:
  assumes "0 \<le> n" and "n < 2 ^ 53"
  shows "f64_of_int n = Finite False (of_int n)"
proof -
  have "round_units (of_int n * 2 ^ 1074) = n * 2 ^ 1074"
    using assms by (rule round_units_exact)
  moreover have "(of_int n :: rat) * 2 ^ 1074 < of_int overflow_units"
  proof -
    have "(of_int n :: rat) < of_int (2 ^ 53)"
      using assms(2) by (simp only: of_int_less_iff)
    then have "(of_int n :: rat) * 2 ^ 1074 < of_int (2 ^ 53) * 2 ^ 1074"
      by (simp only: mult_less_cancel_right_pos zero_less_power zero_less_numeral)
    also have "\<dots> \<le> of_int overflow_units"
      by (simp add: overflow_units_def)
    finally show ?thesis .
  qed
  ultimately have "rnd False (of_int n) = Finite False (of_int n)"
    by (simp add: rnd_def Let_def)
  then show ?thesis
    using assms(1) by (simp add: f64_of_int_def f64_of_rat_def)
qed

lemma fdiv_int_error:
  fixes c r :: rat
  assumes "1 \<le> c" and "c \<le> 2 ^ 16" and "1 / 2 ^ 1000 \<le> r" and "r \<le> 2 ^ 1000"
  shows "\<exists>z. fmul (fdiv (Finite False c) (Finite t r)) (Finite t r) = Finite False z \<and>
           \<bar>z - c\<bar> * 2 ^ 51 \<le> c"
proof -
  have rpos: "0 < r"
    using assms(3) by (rule less_le_trans [rotated]) simp
  define x1 where "x1 = c / r"
  have x1r: "x1 * r = c"
    using rpos by (simp add: x1_def)
  have "1 / 2 ^ 1000 \<le> 1 / r"
    using assms(4) rpos by (simp add: frac_le)
  also have "1 / r \<le> c / r"
    using assms(1) rpos by (simp add: divide_right_mono)
  finally have "1 / 2 ^ 1000 \<le> x1"
    by (simp add: x1_def)
  moreover have "1 / 2 ^ 1022 \<le> (1::rat) / 2 ^ 1000"
    by simp
  ultimately have lo1: "1 / 2 ^ 1022 \<le> x1"
    by (rule order_trans [rotated])
  have "1 \<le> r * 2 ^ 1000"
    using assms(3) by (simp add: divide_le_eq)
  then have "c \<le> c * (r * 2 ^ 1000)"
    using assms(1) by (simp add: mult_le_cancel_left1)
  then have "c / r \<le> c * 2 ^ 1000"
    using rpos by (simp add: divide_le_eq mult.assoc mult.commute mult.left_commute)
  also have "c * 2 ^ 1000 \<le> 2 ^ 16 * 2 ^ 1000"
    using assms(2) by (simp only: mult_le_cancel_right_pos zero_less_power zero_less_numeral)
  also have "\<dots> \<le> (2::rat) ^ 1023"
    by simp
  finally have hi1: "x1 \<le> 2 ^ 1023"
    by (simp add: x1_def)
  obtain z1 where z1: "rnd t x1 = Finite t z1" and e1: "\<bar>z1 - x1\<bar> * 2 ^ 53 \<le> x1"
    using rnd_error [OF lo1 hi1] by blast
  have d: "fdiv (Finite False c) (Finite t r) = Finite t z1"
    using rpos z1 by (simp add: x1_def)
  define x2 where "x2 = z1 * r"
  have "x2 - c = (z1 - x1) * r"
    by (simp add: x2_def x1r left_diff_distrib)
  then have "\<bar>x2 - c\<bar> * 2 ^ 53 = (\<bar>z1 - x1\<bar> * 2 ^ 53) * r"
    using rpos by (simp add: abs_mult)
  also have "\<dots> \<le> x1 * r"
    using e1 rpos by (simp only: mult_le_cancel_right_pos)
  finally have e2: "\<bar>x2 - c\<bar> * 2 ^ 53 \<le> c"
    by (simp only: x1r)
  have cpos: "0 < c"
    using assms(1) by simp
  have "\<bar>x2 - c\<bar> * 2 \<le> \<bar>x2 - c\<bar> * 2 ^ 53"
    by (simp add: mult_left_mono)
  then have near: "\<bar>x2 - c\<bar> * 2 \<le> c"
    using e2 by (rule order_trans)
  then have "1 / 2 \<le> x2"
    using assms(1) by (simp add: abs_if split: if_splits)
  moreover have "1 / 2 ^ 1022 \<le> (1::rat) / 2"
    by simp
  ultimately have lo2: "1 / 2 ^ 1022 \<le> x2"
    by (rule order_trans [rotated])
  have x2c: "x2 \<le> 2 * c"
    using near cpos by (simp add: abs_if split: if_splits)
  also have "\<dots> \<le> 2 * 2 ^ 16"
    using assms(2) by simp
  also have "\<dots> \<le> (2::rat) ^ 1023"
    by simp
  finally have hi2: "x2 \<le> 2 ^ 1023" .
  obtain z2 where z2: "rnd False x2 = Finite False z2" and e3: "\<bar>z2 - x2\<bar> * 2 ^ 53 \<le> x2"
    using rnd_error [OF lo2 hi2] by blast
  have m: "fmul (Finite t z1) (Finite t r) = Finite False z2"
    using z2 by (simp add: x2_def)
  have "\<bar>z2 - c\<bar> \<le> \<bar>z2 - x2\<bar> + \<bar>x2 - c\<bar>"
    by simp
  then have "\<bar>z2 - c\<bar> * 2 ^ 53 \<le> \<bar>z2 - x2\<bar> * 2 ^ 53 + \<bar>x2 - c\<bar> * 2 ^ 53"
    by (simp add: distrib_right [symmetric] mult_right_mono del: distrib_right_numeral)
  also have "\<dots> \<le> x2 + c"
    using e3 e2 by simp
  also have "\<dots> \<le> 4 * c"
    using x2c cpos by simp
  finally have "\<bar>z2 - c\<bar> * 2 ^ 51 \<le> c"
    by simp
  then show ?thesis
    using d m by simp
qed

subsection \<open>Results are doubles\<close>

text \<open>
  Rounding is idempotent and stays below the overflow threshold, so every result of
  \<open>rnd\<close>, and with it every quotient, is a double. Positive quotients are totally
  ordered by \<open>fgt\<close>.
\<close>

lemma rhe_upper:
  assumes "m < of_int b - 1 / 2"
  shows "round_half_even m \<le> b - 1"
proof -
  have "(of_int (round_half_even m) :: rat) < of_int b"
    using rhe_error [of m] assms by linarith
  then show ?thesis
    by simp
qed

lemma round_units_significand:
  assumes "0 \<le> y"
  shows "\<exists>n k. round_units y = n * 2 ^ k \<and> 0 \<le> n \<and> n \<le> 2 ^ 53 \<and>
           k = nat (bitlen \<lfloor>y\<rfloor> - 53)"
proof -
  define k where "k = nat (bitlen \<lfloor>y\<rfloor> - 53)"
  define n where "n = round_half_even (y / 2 ^ k)"
  have "y < 2 ^ 53 * 2 ^ k"
    unfolding k_def by (rule scale_upper)
  then have "y / 2 ^ k \<le> of_int (2 ^ 53)"
    by (simp add: divide_le_eq)
  then have "n \<le> round_half_even (of_int (2 ^ 53))"
    unfolding n_def by (rule rhe_mono)
  then have up: "n \<le> 2 ^ 53"
    by (simp only: rhe_of_int)
  have "of_int 0 \<le> y / 2 ^ k"
    using assms by simp
  then have "round_half_even (of_int 0) \<le> n"
    unfolding n_def by (rule rhe_mono)
  then have lo: "0 \<le> n"
    by (simp only: rhe_of_int)
  have "round_units y = n * 2 ^ k"
    by (simp add: round_units_def Let_def k_def n_def)
  then show ?thesis
    using lo up k_def by blast
qed

lemma round_units_idem:
  assumes "0 \<le> y"
  shows "round_units (of_int (round_units y)) = round_units y"
proof -
  obtain n k where r: "round_units y = n * 2 ^ k" and n: "0 \<le> n" "n \<le> 2 ^ 53"
    using round_units_significand [OF assms] by blast
  show ?thesis
  proof (cases "n < 2 ^ 53")
    case True
    then have "round_units (of_int n * 2 ^ k) = n * 2 ^ k"
      using n(1) by (intro round_units_exact)
    then show ?thesis
      by (simp add: r)
  next
    case False
    then have e: "n = 2 ^ 53"
      using n(2) by simp
    have "round_units (of_int (2 ^ 52) * 2 ^ Suc k) = 2 ^ 52 * 2 ^ Suc k"
      by (intro round_units_exact) simp_all
    moreover have "(2::int) ^ 52 * 2 ^ Suc k = 2 ^ 53 * 2 ^ k"
      by simp
    moreover have "(of_int (2 ^ 52) :: rat) * 2 ^ Suc k = of_int (2 ^ 53 * 2 ^ k)"
      by simp
    ultimately show ?thesis
      by (simp only: r e)
  qed
qed

lemma round_units_below_overflow:
  assumes "0 \<le> y" and "y < of_int overflow_units"
  shows "round_units y < overflow_units"
proof -
  obtain n k where r: "round_units y = n * 2 ^ k" and n: "0 \<le> n" "n \<le> 2 ^ 53"
    and k: "k = nat (bitlen \<lfloor>y\<rfloor> - 53)"
    using round_units_significand [OF assms(1)] by blast
  show ?thesis
  proof (cases "k \<le> 2044")
    case True
    have "n * 2 ^ k \<le> 2 ^ 53 * 2 ^ k"
      using n(2) by (simp add: mult_right_mono)
    also have "\<dots> \<le> (2::int) ^ 53 * 2 ^ 2044"
    proof -
      have "(2::int) ^ k \<le> 2 ^ 2044"
        using True by (intro power_increasing) simp_all
      then show ?thesis
        by (simp only: mult_le_cancel_left_pos zero_less_power zero_less_numeral)
    qed
    also have "\<dots> < overflow_units"
      by (simp add: overflow_units_def)
    finally show ?thesis
      by (simp add: r)
  next
    case False
    then have kpos: "0 < nat (bitlen \<lfloor>y\<rfloor> - 53)" and k45: "2045 \<le> k"
      using k by simp_all
    have lo: "2 ^ 52 * 2 ^ k \<le> y"
      unfolding k using kpos by (rule scale_lower)
    have "y < 2 ^ 53 * 2 ^ 2045"
      using assms(2) by (simp add: overflow_units_def)
    with lo have "(2::rat) ^ 52 * 2 ^ k < 2 ^ 53 * 2 ^ 2045"
      by (rule le_less_trans)
    then have "(2::rat) ^ (52 + k) < 2 ^ (53 + 2045)"
      by (simp only: power_add)
    then have "52 + k < 53 + 2045"
      by (simp only: power_strict_increasing_iff one_less_numeral_iff Num.num.simps semiring_norm)
    then have ke: "k = 2045"
      using k45 by simp
    have "y / 2 ^ 2045 < of_int (2 ^ 53) - 1 / 2"
      using assms(2) by (simp add: overflow_units_def divide_less_eq)
    then have "round_half_even (y / 2 ^ 2045) \<le> 2 ^ 53 - 1"
      by (rule rhe_upper)
    moreover have "n = round_half_even (y / 2 ^ 2045)"
    proof -
      have "round_units y = round_half_even (y / 2 ^ 2045) * 2 ^ 2045"
        using k ke by (simp add: round_units_def Let_def)
      then show ?thesis
        using r ke by simp
    qed
    ultimately have "n \<le> 2 ^ 53 - 1"
      by simp
    then have "n * 2 ^ 2045 \<le> (2 ^ 53 - 1) * 2 ^ 2045"
      by (simp only: mult_le_cancel_right_pos zero_less_power zero_less_numeral)
    also have "\<dots> < overflow_units"
      by (simp add: overflow_units_def)
    finally show ?thesis
      by (simp add: r ke)
  qed
qed

lemma is_f64_rnd:
  assumes "0 \<le> x"
  shows "is_f64 (rnd s x)"
proof (cases "rnd s x")
  case (Finite t z)
  define U :: rat where "U = 2 ^ 1074"
  have Upos: "0 < U"
    by (simp add: U_def)
  define y where "y = x * U"
  have y0: "0 \<le> y"
    using assms Upos by (simp add: y_def)
  from Finite have ts: "t = s" and fin: "y < of_int overflow_units"
    and z: "z = of_int (round_units y) / U"
    by (simp_all add: rnd_Finite_iff y_def U_def)
  have zU: "z * U = of_int (round_units y)"
    using Upos by (simp add: z)
  have "round_units (z * U) = round_units y"
    unfolding zU using y0 by (rule round_units_idem)
  then have b: "z = of_int (round_units (z * U)) / U"
    by (simp only: z)
  have a: "z * U < of_int overflow_units"
    unfolding zU using round_units_below_overflow [OF y0 fin] by simp
  have c: "0 \<le> z"
    using round_units_nonneg [OF y0] Upos by (simp add: z)
  have "rnd s z = Finite s z"
    using a [unfolded U_def] b [unfolded U_def] unfolding rnd_Finite_iff by blast
  then show ?thesis
    using c by (simp add: Finite ts is_f64_def)
next
  case (Infinity t)
  then show ?thesis
    by (simp add: is_f64_def)
next
  case NaN
  then show ?thesis
    by (simp add: is_f64_def)
qed

lemma is_f64_zero: "is_f64 (Finite s 0)"
proof -
  have "round_units 0 = 0"
    using round_units_small [of 0] rhe_of_int [of 0] by simp
  then show ?thesis
    by (simp add: is_f64_def rnd_def overflow_units_def)
qed

lemma is_f64_fdiv:
  assumes "is_f64 x" and "is_f64 y"
  shows "is_f64 (fdiv x y)"
proof (cases x)
  case xf: (Finite s m)
  show ?thesis
  proof (cases y)
    case yf: (Finite t n)
    have "0 \<le> m" and "0 \<le> n"
      using assms xf yf by (simp_all add: is_f64_FiniteD(1))
    then have "0 \<le> m / n"
      by simp
    then have "is_f64 (rnd (s \<noteq> t) (m / n))"
      by (rule is_f64_rnd)
    then show ?thesis
      by (simp add: xf yf is_f64_def)
  next
    case (Infinity t)
    then show ?thesis
      using xf is_f64_zero by simp
  next
    case NaN
    then show ?thesis
      using xf by (simp add: is_f64_def)
  qed
next
  case (Infinity s)
  then show ?thesis
    by (cases y) (simp_all add: is_f64_def)
next
  case NaN
  then show ?thesis
    by (simp add: is_f64_def)
qed

lemma is_f64_of_int: "is_f64 (f64_of_int i)"
  unfolding f64_of_int_def f64_of_rat_def by (rule is_f64_rnd) simp

lemma fdiv_positive_form:
  assumes "0 < m" and "r = Infinity False \<or> (\<exists>a. 0 < a \<and> r = Finite False a)"
  shows "fdiv (Finite False m) r = Infinity False \<or>
         (\<exists>z. fdiv (Finite False m) r = Finite False z)"
proof (cases "r = Infinity False")
  case True
  then show ?thesis by simp
next
  case False
  then obtain a where a: "0 < a" "r = Finite False a"
    using assms(2) by blast
  then have "fdiv (Finite False m) r = rnd False (m / a)"
    by simp
  then show ?thesis
    using rnd_cases [of False "m / a"] by auto
qed

lemma fgt_trichotomy:
  assumes "x = Infinity False \<or> (\<exists>a. x = Finite False a)"
    and "y = Infinity False \<or> (\<exists>b. y = Finite False b)"
    and "x \<noteq> y" and "\<not> fgt y x"
  shows "fgt x y"
  using assms by (auto simp add: signed_def)

lemma fgt_irrefl: "\<not> fgt x x"
  by (cases x) simp_all

section \<open>The sum and the mean\<close>

text \<open>
  The three cases of \<open>pairwise_sum\<close>, and the mean of values that are all numbers.
\<close>

declare pairwise_sum.simps [simp del]

lemma pairwise_sum_few:
  "length a < 8 \<Longrightarrow> pairwise_sum a = foldl fadd (Finite True 0) a"
  by (subst pairwise_sum.simps) simp

lemma pairwise_sum_blocks:
  "8 \<le> length a \<Longrightarrow> length a \<le> 128 \<Longrightarrow>
   pairwise_sum a =
     foldl fadd (add_pairs (add_blocks (length a div 8 - 1) (take 8 a) (drop 8 a)))
       (drop (length a - length a mod 8) a)"
  by (subst pairwise_sum.simps) simp

lemma pairwise_sum_halves:
  "128 < length a \<Longrightarrow>
   pairwise_sum a =
     fadd (pairwise_sum (take (length a div 2 - length a div 2 mod 8) a))
          (pairwise_sum (drop (length a div 2 - length a div 2 mod 8) a))"
  by (subst pairwise_sum.simps) simp

lemma mean_numbers:
  assumes "xs \<noteq> []" and "NaN \<notin> set xs"
  shows "mean xs = fdiv (np_sum xs) (f64_of_int (int (length xs)))"
proof -
  have "map (\<lambda>x. if x = NaN then fzero else x) xs = xs"
    using assms(2) by (induction xs) auto
  moreover have "filter (\<lambda>x. x \<noteq> NaN) xs = xs"
    using assms(2) by (induction xs) auto
  ultimately show ?thesis
    using assms(1) by (simp add: mean_def)
qed

subsection \<open>Powers of the rounding factors\<close>

lemma power_below:
  fixes u :: rat
  assumes "0 \<le> u" and "u \<le> 1"
  shows "1 - of_nat d * u \<le> (1 - u) ^ d"
proof (induction d)
  case 0
  show ?case
    by simp
next
  case (Suc d)
  have "(1 - of_nat d * u) * (1 - u) \<le> (1 - u) ^ d * (1 - u)"
    using Suc assms by (intro mult_right_mono) simp_all
  moreover have "1 - of_nat (Suc d) * u \<le> (1 - of_nat d * u) * (1 - u)"
  proof -
    have "0 \<le> of_nat d * (u * u)"
      using assms by simp
    then show ?thesis
      by (simp add: algebra_simps)
  qed
  ultimately show ?case
    by (simp add: mult.commute)
qed

lemma power_above:
  fixes u :: rat
  assumes "0 \<le> u" and "of_nat d * u \<le> 1"
  shows "(1 + u) ^ d \<le> 1 + of_nat d * u + (of_nat d * u) ^ 2"
  using assms(2)
proof (induction d)
  case 0
  show ?case
    by simp
next
  case (Suc d)
  have du: "of_nat d * u \<le> 1"
  proof -
    have "of_nat d * u \<le> of_nat (Suc d) * u"
      using assms(1) by (intro mult_right_mono) simp_all
    then show ?thesis
      using Suc.prems by simp
  qed
  define t where "t = of_nat d * u"
  have t: "0 \<le> t" "t \<le> 1"
    using du assms(1) by (simp_all add: t_def)
  have "(1 + u) ^ d \<le> 1 + t + t ^ 2"
    using Suc.IH du by (simp add: t_def)
  then have "(1 + u) ^ d * (1 + u) \<le> (1 + t + t ^ 2) * (1 + u)"
    using assms(1) by (intro mult_right_mono) simp_all
  moreover have "(1 + t + t ^ 2) * (1 + u) \<le> 1 + (t + u) + (t + u) ^ 2"
  proof -
    have "t * (t * u) \<le> t * u"
      using t assms(1) by (intro mult_left_le_one_le) simp_all
    moreover have "0 \<le> u * u"
      by simp
    ultimately have "t * (t * u) \<le> t * u + u * u"
      by linarith
    then show ?thesis
      by (simp add: algebra_simps power2_eq_square)
  qed
  moreover have "of_nat (Suc d) * u = t + u"
    by (simp add: t_def algebra_simps)
  ultimately show ?case
    by (simp add: mult.commute)
qed

lemma ulp_powers:
  assumes "d \<le> 32"
  shows "1 / 2 \<le> (1 - 1 / 2 ^ 53 :: rat) ^ d" and "(1 + 1 / 2 ^ 53 :: rat) ^ d \<le> 2"
proof -
  define u :: rat where "u = 1 / 2 ^ 53"
  have u: "0 \<le> u" "u \<le> 1"
    by (simp_all add: u_def)
  have d: "(of_nat d :: rat) \<le> 32"
    using assms by simp
  have du: "of_nat d * u \<le> 32 * u"
    using d u(1) by (rule mult_right_mono)
  have "1 - of_nat d * u \<le> (1 - u) ^ d"
    using u by (rule power_below)
  moreover have "1 / 2 \<le> 1 - 32 * u"
    by (simp add: u_def)
  ultimately show "1 / 2 \<le> (1 - 1 / 2 ^ 53 :: rat) ^ d"
    using du unfolding u_def by linarith
  have s: "32 * u \<le> 1 / 2"
    by (simp add: u_def)
  have du1: "of_nat d * u \<le> 1" and du2: "of_nat d * u \<le> 1 / 2"
    using du s by linarith+
  have "0 \<le> of_nat d * u"
    using u(1) by simp
  then have "(of_nat d * u) ^ 2 \<le> (1 / 2) ^ 2"
    using du2 by (intro power_mono) simp_all
  then have "(of_nat d * u) ^ 2 \<le> 1 / 4"
    by (simp add: power2_eq_square)
  moreover have "(1 + u) ^ d \<le> 1 + of_nat d * u + (of_nat d * u) ^ 2"
    using u(1) du1 by (rule power_above)
  ultimately show "(1 + 1 / 2 ^ 53 :: rat) ^ d \<le> 2"
    using du2 unfolding u_def by linarith
qed

lemma ulp_powers_27:
  "1 - 1 / 2 ^ 48 \<le> (1 - 1 / 2 ^ 53 :: rat) ^ 27"
  "(1 + 1 / 2 ^ 53 :: rat) ^ 27 \<le> 1 + 1 / 2 ^ 48"
proof -
  define u :: rat where "u = 1 / 2 ^ 53"
  have u: "0 \<le> u" "u \<le> 1"
    by (simp_all add: u_def)
  have "1 - of_nat 27 * u \<le> (1 - u) ^ 27"
    using u by (rule power_below)
  moreover have "1 - 1 / 2 ^ 48 \<le> 1 - of_nat 27 * u"
    by (simp add: u_def)
  ultimately show "1 - 1 / 2 ^ 48 \<le> (1 - 1 / 2 ^ 53 :: rat) ^ 27"
    unfolding u_def by (rule order_trans [rotated])
  have "of_nat 27 * u \<le> 1"
    by (simp add: u_def)
  with u(1) have "(1 + u) ^ 27 \<le> 1 + of_nat 27 * u + (of_nat 27 * u) ^ 2"
    by (rule power_above)
  moreover have "1 + of_nat 27 * u + (of_nat 27 * u) ^ 2 \<le> 1 + 1 / 2 ^ 48"
    by (simp add: u_def power2_eq_square)
  ultimately show "(1 + 1 / 2 ^ 53 :: rat) ^ 27 \<le> 1 + 1 / 2 ^ 48"
    unfolding u_def by (rule order_trans)
qed

lemma rnd_step:
  fixes v s :: rat
  assumes lo: "v * (1 - 1 / 2 ^ 53) ^ d \<le> s" and hi: "s \<le> v * (1 + 1 / 2 ^ 53) ^ d"
    and v: "1 / 2 ^ 1000 \<le> v" "v \<le> 2 ^ 1000" and d: "d \<le> 32"
  shows "\<exists>z. rnd False s = Finite False z \<and>
             v * (1 - 1 / 2 ^ 53) ^ Suc d \<le> z \<and> z \<le> v * (1 + 1 / 2 ^ 53) ^ Suc d"
proof -
  define a :: rat where "a = 1 - 1 / 2 ^ 53"
  define b :: rat where "b = 1 + 1 / 2 ^ 53"
  have a: "0 \<le> a" and b: "0 \<le> b"
    by (simp_all add: a_def b_def)
  have p: "1 / 2 \<le> a ^ d" "b ^ d \<le> 2"
    using ulp_powers [OF d] by (simp_all add: a_def b_def)
  have vpos: "0 < v"
    using v(1) by (rule less_le_trans [rotated]) simp
  have "v * (1 / 2) \<le> v * a ^ d"
    using p(1) vpos by (intro mult_left_mono) simp_all
  then have s1: "v / 2 \<le> s"
    using lo by (simp add: a_def)
  have "v * b ^ d \<le> v * 2"
    using p(2) vpos by (intro mult_left_mono) simp_all
  then have s2: "s \<le> 2 * v"
    using hi by (simp add: b_def)
  have spos: "0 < s"
    using s1 vpos by linarith
  have "(1 :: rat) / 2 ^ 1022 \<le> 1 / 2 ^ 1000 / 2"
    by simp
  also have "\<dots> \<le> v / 2"
    using v(1) by simp
  finally have r1: "1 / 2 ^ 1022 \<le> s"
    using s1 by simp
  have "2 * v \<le> 2 * 2 ^ 1000"
    using v(2) by simp
  also have "\<dots> \<le> (2 :: rat) ^ 1023"
    by simp
  finally have r2: "s \<le> 2 ^ 1023"
    using s2 by simp
  obtain z where z: "rnd False s = Finite False z" and e: "\<bar>z - s\<bar> * 2 ^ 53 \<le> s"
    using rnd_error [OF r1 r2, of False] by blast
  have e': "\<bar>z - s\<bar> \<le> s / 2 ^ 53"
    using e by (simp add: field_simps)
  have "s * a \<le> z"
  proof -
    have "s * a = s - s / 2 ^ 53"
      by (simp add: a_def algebra_simps)
    then show ?thesis
      using e' by linarith
  qed
  moreover have "v * a ^ d * a \<le> s * a"
    using lo a by (intro mult_right_mono) (simp_all add: a_def)
  ultimately have l: "v * a ^ Suc d \<le> z"
    by (simp add: mult.assoc power_commutes)
  have "z \<le> s * b"
  proof -
    have "s * b = s + s / 2 ^ 53"
      by (simp add: b_def algebra_simps)
    then show ?thesis
      using e' by linarith
  qed
  moreover have "s * b \<le> v * b ^ d * b"
    using hi b by (intro mult_right_mono) (simp_all add: b_def)
  ultimately have h: "z \<le> v * b ^ Suc d"
    by (simp add: mult.assoc power_commutes)
  show ?thesis
    using z l h unfolding a_def b_def by blast
qed


lemma approx_value:
  assumes "1 / 2 ^ 900 \<le> m" and "m \<le> 2 ^ 900"
  shows "approx 0 1 (Finite False m) m"
  using assms by (simp add: approx_def)

lemma approx_weaken:
  assumes "approx d c x v" and "d \<le> e" and "c \<le> c'"
  shows "approx e c' x v"
proof -
  obtain z where x: "x = Finite False z"
    and l: "v * (1 - 1 / 2 ^ 53) ^ d \<le> z" and h: "z \<le> v * (1 + 1 / 2 ^ 53) ^ d"
    and v: "1 / 2 ^ 900 \<le> v" "v \<le> of_nat c * 2 ^ 900"
    using assms(1) unfolding approx_def by blast
  have vpos: "0 \<le> v"
    using v(1) by (rule order_trans [rotated]) simp
  have "(1 - 1 / 2 ^ 53 :: rat) ^ e \<le> (1 - 1 / 2 ^ 53) ^ d"
    using assms(2) by (intro power_decreasing) simp_all
  then have "v * (1 - 1 / 2 ^ 53) ^ e \<le> v * (1 - 1 / 2 ^ 53) ^ d"
    using vpos by (rule mult_left_mono)
  then have l': "v * (1 - 1 / 2 ^ 53) ^ e \<le> z"
    using l by (rule order_trans)
  have "(1 + 1 / 2 ^ 53 :: rat) ^ d \<le> (1 + 1 / 2 ^ 53) ^ e"
    using assms(2) by (intro power_increasing) simp_all
  then have "v * (1 + 1 / 2 ^ 53) ^ d \<le> v * (1 + 1 / 2 ^ 53) ^ e"
    using vpos by (rule mult_left_mono)
  with h have h': "z \<le> v * (1 + 1 / 2 ^ 53) ^ e"
    by (rule order_trans)
  have "(of_nat c :: rat) * 2 ^ 900 \<le> of_nat c' * 2 ^ 900"
    using assms(3) by (intro mult_right_mono) simp_all
  with v(2) have "v \<le> of_nat c' * 2 ^ 900"
    by (rule order_trans)
  with x l' h' v(1) show ?thesis
    unfolding approx_def by blast
qed

lemma approx_range:
  assumes "approx d c x v" and "c \<le> 256"
  shows "1 / 2 ^ 1000 \<le> v" and "v \<le> 2 ^ 1000"
proof -
  have v: "1 / 2 ^ 900 \<le> v" "v \<le> of_nat c * 2 ^ 900"
    using assms(1) unfolding approx_def by blast+
  have "(1 :: rat) / 2 ^ 1000 \<le> 1 / 2 ^ 900"
    by simp
  then show "1 / 2 ^ 1000 \<le> v"
    using v(1) by (rule order_trans)
  have "(of_nat c :: rat) \<le> 256"
    using assms(2) by simp
  then have "(of_nat c :: rat) * 2 ^ 900 \<le> 256 * 2 ^ 900"
    by (intro mult_right_mono) simp_all
  also have "\<dots> \<le> (2 :: rat) ^ 1000"
    by simp
  finally show "v \<le> 2 ^ 1000"
    using v(2) by simp
qed

lemma approx_positive:
  assumes "approx d c x v" and "d \<le> 32"
  obtains z where "x = Finite False z" and "0 < z"
proof -
  obtain z where x: "x = Finite False z" and l: "v * (1 - 1 / 2 ^ 53) ^ d \<le> z"
    and v: "1 / 2 ^ 900 \<le> v"
    using assms(1) unfolding approx_def by blast
  have vpos: "0 < v"
    using v by (rule less_le_trans [rotated]) simp
  have "0 < (1 - 1 / 2 ^ 53 :: rat) ^ d"
    by simp
  with vpos have "0 < v * (1 - 1 / 2 ^ 53) ^ d"
    by (rule mult_pos_pos)
  then have "0 < z"
    using l by (rule less_le_trans)
  with x show thesis
    by (rule that)
qed

lemma approx_fadd:
  assumes x: "approx d c x v" and y: "approx d c' y w" and d: "d < 32" and c: "c + c' \<le> 256"
  shows "approx (Suc d) (c + c') (fadd x y) (v + w)"
proof -
  obtain z1 where x1: "x = Finite False z1"
    and l1: "v * (1 - 1 / 2 ^ 53) ^ d \<le> z1" and h1: "z1 \<le> v * (1 + 1 / 2 ^ 53) ^ d"
    and v: "1 / 2 ^ 900 \<le> v" "v \<le> of_nat c * 2 ^ 900"
    using x unfolding approx_def by blast
  obtain z2 where y2: "y = Finite False z2"
    and l2: "w * (1 - 1 / 2 ^ 53) ^ d \<le> z2" and h2: "z2 \<le> w * (1 + 1 / 2 ^ 53) ^ d"
    and w: "1 / 2 ^ 900 \<le> w" "w \<le> of_nat c' * 2 ^ 900"
    using y unfolding approx_def by blast
  have p1: "0 < z1"
    using x x1 d by (auto elim: approx_positive [where d = d])
  have p2: "0 < z2"
    using y y2 d by (auto elim: approx_positive [where d = d])
  have sum: "fadd x y = rnd False (z1 + z2)"
    using p1 p2 by (simp add: x1 y2 signed_def Let_def)
  have l: "(v + w) * (1 - 1 / 2 ^ 53) ^ d \<le> z1 + z2"
    using l1 l2 by (simp only: distrib_right add_mono)
  have h: "z1 + z2 \<le> (v + w) * (1 + 1 / 2 ^ 53) ^ d"
    using h1 h2 by (simp only: distrib_right add_mono)
  have vw: "1 / 2 ^ 900 \<le> v + w"
  proof -
    have "0 \<le> w"
      using w(1) by (rule order_trans [rotated]) simp
    with v(1) show ?thesis
      by linarith
  qed
  have vw': "v + w \<le> of_nat (c + c') * 2 ^ 900"
    using v(2) w(2) by (simp only: of_nat_add distrib_right add_mono)
  have a: "approx d (c + c') (Finite False (z1 + z2)) (v + w)"
    using l h vw vw' unfolding approx_def by blast
  have r: "1 / 2 ^ 1000 \<le> v + w" "v + w \<le> 2 ^ 1000"
    using approx_range [OF a c] by blast+
  have "d \<le> 32"
    using d by simp
  with l h r obtain z where z: "rnd False (z1 + z2) = Finite False z"
    and b: "(v + w) * (1 - 1 / 2 ^ 53) ^ Suc d \<le> z" "z \<le> (v + w) * (1 + 1 / 2 ^ 53) ^ Suc d"
    using rnd_step [of "v + w" d "z1 + z2"] by blast
  have "fadd x y = Finite False z"
    using sum z by (rule trans)
  with b vw vw' show ?thesis
    unfolding approx_def by blast
qed

lemma approx_neg_zero:
  assumes x: "approx d c x v" and d: "d < 32" and c: "c \<le> 256"
  shows "approx (Suc d) c (fadd (Finite True 0) x) v"
proof -
  obtain z where x1: "x = Finite False z"
    and l: "v * (1 - 1 / 2 ^ 53) ^ d \<le> z" and h: "z \<le> v * (1 + 1 / 2 ^ 53) ^ d"
    and v: "1 / 2 ^ 900 \<le> v" "v \<le> of_nat c * 2 ^ 900"
    using x unfolding approx_def by blast
  have p: "0 < z"
    using x x1 d by (auto elim: approx_positive [where d = d])
  have sum: "fadd (Finite True 0) x = rnd False z"
    using p by (simp add: x1 signed_def Let_def)
  have r: "1 / 2 ^ 1000 \<le> v" "v \<le> 2 ^ 1000"
    using approx_range [OF x c] by blast+
  have "d \<le> 32"
    using d by simp
  with l h r obtain z' where z: "rnd False z = Finite False z'"
    and b: "v * (1 - 1 / 2 ^ 53) ^ Suc d \<le> z'" "z' \<le> v * (1 + 1 / 2 ^ 53) ^ Suc d"
    using rnd_step [of v d z] by blast
  have "fadd (Finite True 0) x = Finite False z'"
    using sum z by (rule trans)
  with b v show ?thesis
    unfolding approx_def by blast
qed

lemma approx_foldl:
  assumes "approx d c acc v" and "\<forall>m \<in> set ms. 1 / 2 ^ 900 \<le> m \<and> m \<le> 2 ^ 900"
    and "d + length ms \<le> 32" and "c + length ms \<le> 256"
  shows "approx (d + length ms) (c + length ms)
           (foldl fadd acc (map (Finite False) ms)) (v + sum_list ms)"
  using assms
proof (induction ms arbitrary: d c acc v)
  case Nil
  then show ?case
    by simp
next
  case (Cons m ms)
  have "approx 0 1 (Finite False m) m"
    using Cons.prems(2) by (intro approx_value) simp_all
  then have "approx d 1 (Finite False m) m"
    by (rule approx_weaken) simp_all
  with Cons.prems(1) have "approx (Suc d) (c + 1) (fadd acc (Finite False m)) (v + m)"
    using Cons.prems(3,4) by (intro approx_fadd) simp_all
  then have "approx (Suc d + length ms) (c + 1 + length ms)
               (foldl fadd (fadd acc (Finite False m)) (map (Finite False) ms))
               (v + m + sum_list ms)"
    using Cons.prems(2,3,4) by (intro Cons.IH) simp_all
  then show ?case
    by (simp add: add.assoc)
qed


lemma sum_list_map2_add:
  fixes xs ys :: "rat list"
  assumes "length xs = length ys"
  shows "sum_list (map2 (+) xs ys) = sum_list xs + sum_list ys"
  using assms by (induction xs ys rule: list_induct2) simp_all

lemma sum_list_8:
  fixes vs :: "rat list"
  assumes "length vs = 8"
  shows "sum_list vs =
           ((vs ! 0 + vs ! 1) + (vs ! 2 + vs ! 3)) + ((vs ! 4 + vs ! 5) + (vs ! 6 + vs ! 7))"
  using assms by (auto simp: numeral_eq_Suc length_Suc_conv)

lemma approx_map2:
  assumes r: "list_all2 (approx d c) r vs" and len: "length ms = length vs"
    and ms: "\<forall>m \<in> set ms. 1 / 2 ^ 900 \<le> m \<and> m \<le> 2 ^ 900"
    and d: "d < 32" and c: "c + 1 \<le> 256"
  shows "list_all2 (approx (Suc d) (Suc c))
           (map2 fadd r (map (Finite False) ms)) (map2 (+) vs ms)"
proof (rule list_all2_all_nthI)
  have lr: "length r = length vs"
    using r by (rule list_all2_lengthD)
  show "length (map2 fadd r (map (Finite False) ms)) = length (map2 (+) vs ms)"
    using lr len by simp
  fix i
  assume "i < length (map2 fadd r (map (Finite False) ms))"
  then have i: "i < length r" "i < length ms" "i < length vs"
    using lr len by simp_all
  have "approx d c (r ! i) (vs ! i)"
    using r i(1) by (rule list_all2_nthD)
  moreover have "approx d 1 (Finite False (ms ! i)) (ms ! i)"
  proof -
    have "ms ! i \<in> set ms"
      using i(2) by simp
    then have "approx 0 1 (Finite False (ms ! i)) (ms ! i)"
      using ms by (intro approx_value) simp_all
    then show ?thesis
      by (rule approx_weaken) simp_all
  qed
  ultimately have "approx (Suc d) (c + 1) (fadd (r ! i) (Finite False (ms ! i))) (vs ! i + ms ! i)"
    using d c by (rule approx_fadd)
  then show "approx (Suc d) (Suc c)
               (map2 fadd r (map (Finite False) ms) ! i) (map2 (+) vs ms ! i)"
    using i by simp
qed

lemma approx_add_blocks:
  assumes "list_all2 (approx d c) r vs" and "length vs = 8" and "8 * k \<le> length ms"
    and "\<forall>m \<in> set ms. 1 / 2 ^ 900 \<le> m \<and> m \<le> 2 ^ 900"
    and "d + k \<le> 32" and "c + k \<le> 256"
  shows "\<exists>ws. list_all2 (approx (d + k) (c + k)) (add_blocks k r (map (Finite False) ms)) ws \<and>
              length ws = 8 \<and> sum_list ws = sum_list vs + sum_list (take (8 * k) ms)"
  using assms
proof (induction k arbitrary: d c r vs ms)
  case 0
  then show ?case
    by auto
next
  case (Suc k)
  define ws where "ws = map2 (+) vs (take 8 ms)"
  have len: "length (take 8 ms) = length vs"
    using Suc.prems(2,3) by simp
  have "\<forall>m \<in> set (take 8 ms). 1 / 2 ^ 900 \<le> m \<and> m \<le> 2 ^ 900"
    using Suc.prems(4) by (auto dest: in_set_takeD)
  with Suc.prems(1) len
  have "list_all2 (approx (Suc d) (Suc c))
          (map2 fadd r (map (Finite False) (take 8 ms))) ws"
    unfolding ws_def using Suc.prems(5,6) by (intro approx_map2) simp_all
  moreover have "length ws = 8"
    using len Suc.prems(2) by (simp add: ws_def)
  moreover have "8 * k \<le> length (drop 8 ms)"
    using Suc.prems(3) by simp
  moreover have "\<forall>m \<in> set (drop 8 ms). 1 / 2 ^ 900 \<le> m \<and> m \<le> 2 ^ 900"
    using Suc.prems(4) by (auto dest: in_set_dropD)
  moreover have "Suc d + k \<le> 32" "Suc c + k \<le> 256"
    using Suc.prems(5,6) by simp_all
  ultimately obtain us
    where us: "list_all2 (approx (Suc d + k) (Suc c + k))
                 (add_blocks k (map2 fadd r (map (Finite False) (take 8 ms)))
                    (map (Finite False) (drop 8 ms))) us"
      and lus: "length us = 8"
      and sus: "sum_list us = sum_list ws + sum_list (take (8 * k) (drop 8 ms))"
    using Suc.IH [of "Suc d" "Suc c" "map2 fadd r (map (Finite False) (take 8 ms))" ws
        "drop 8 ms"] by blast
  have "sum_list ws = sum_list vs + sum_list (take 8 ms)"
    unfolding ws_def using len by (intro sum_list_map2_add) simp
  moreover have "take (8 * Suc k) ms = take 8 ms @ take (8 * k) (drop 8 ms)"
    by (simp add: take_add [symmetric])
  ultimately have "sum_list us = sum_list vs + sum_list (take (8 * Suc k) ms)"
    using sus by simp
  moreover have "list_all2 (approx (d + Suc k) (c + Suc k))
                   (add_blocks (Suc k) r (map (Finite False) ms)) us"
    using us by (simp add: take_map drop_map)
  ultimately show ?case
    using lus by blast
qed

lemma approx_add_pairs:
  assumes r: "list_all2 (approx d c) r vs" and len: "length vs = 8"
    and d: "d + 3 \<le> 32" and c: "8 * c \<le> 256"
  shows "approx (d + 3) (8 * c) (add_pairs r) (sum_list vs)"
proof -
  have e: "approx d c (r ! i) (vs ! i)" if "i < 8" for i
  proof -
    have "i < length r"
      using that len list_all2_lengthD [OF r] by simp
    with r show ?thesis
      by (rule list_all2_nthD)
  qed
  have d1: "d < 32" "Suc d < 32" "Suc (Suc d) < 32"
    using d by simp_all
  have c1: "c + c \<le> 256" "(c + c) + (c + c) \<le> 256"
    "((c + c) + (c + c)) + ((c + c) + (c + c)) \<le> 256"
    using c by simp_all
  have p: "approx (Suc d) (c + c) (fadd (r ! i) (r ! j)) (vs ! i + vs ! j)"
    if "i < 8" and "j < 8" for i j
    using e [OF that(1)] e [OF that(2)] d1(1) c1(1) by (rule approx_fadd)
  have q: "approx (Suc (Suc d)) ((c + c) + (c + c))
             (fadd (fadd (r ! i) (r ! j)) (fadd (r ! k) (r ! l)))
             ((vs ! i + vs ! j) + (vs ! k + vs ! l))"
    if "i < 8" and "j < 8" and "k < 8" and "l < 8" for i j k l
    using p [OF that(1,2)] p [OF that(3,4)] d1(2) c1(2) by (rule approx_fadd)
  have "approx (Suc (Suc (Suc d))) (((c + c) + (c + c)) + ((c + c) + (c + c)))
          (add_pairs r)
          (((vs ! 0 + vs ! 1) + (vs ! 2 + vs ! 3)) + ((vs ! 4 + vs ! 5) + (vs ! 6 + vs ! 7)))"
    unfolding add_pairs_def
  proof (rule approx_fadd)
    show "approx (Suc (Suc d)) ((c + c) + (c + c))
            (fadd (fadd (r ! 0) (r ! 1)) (fadd (r ! 2) (r ! 3)))
            ((vs ! 0 + vs ! 1) + (vs ! 2 + vs ! 3))"
      by (rule q) simp_all
    show "approx (Suc (Suc d)) ((c + c) + (c + c))
            (fadd (fadd (r ! 4) (r ! 5)) (fadd (r ! 6) (r ! 7)))
            ((vs ! 4 + vs ! 5) + (vs ! 6 + vs ! 7))"
      by (rule q) simp_all
  qed (use d1(3) c1(3) in simp_all)
  moreover have "((c + c) + (c + c)) + ((c + c) + (c + c)) = 8 * c"
    by simp
  moreover have "Suc (Suc (Suc d)) = d + 3"
    by simp
  ultimately show ?thesis
    using sum_list_8 [OF len] by simp
qed

lemma approx_values:
  assumes ms: "\<forall>m \<in> set ms. 1 / 2 ^ 900 \<le> m \<and> m \<le> 2 ^ 900"
  shows "list_all2 (approx 0 1) (map (Finite False) ms) ms"
proof (rule list_all2_all_nthI)
  show "length (map (Finite False) ms) = length ms"
    by simp
  fix i
  assume "i < length (map (Finite False) ms)"
  then have i: "i < length ms"
    by simp
  then have "ms ! i \<in> set ms"
    by simp
  then have "approx 0 1 (Finite False (ms ! i)) (ms ! i)"
    using ms by (intro approx_value) simp_all
  then show "approx 0 1 (map (Finite False) ms ! i) (ms ! i)"
    using i by simp
qed

lemma approx_pairwise_sum:
  assumes ne: "ms \<noteq> []" and len: "length ms \<le> 128"
    and ms: "\<forall>m \<in> set ms. 1 / 2 ^ 900 \<le> m \<and> m \<le> 2 ^ 900"
  shows "approx 25 (length ms) (pairwise_sum (map (Finite False) ms)) (sum_list ms)"
proof (cases "length ms < 8")
  case True
  obtain m rest where s: "ms = m # rest"
    using ne by (cases ms) simp_all
  have "approx 0 1 (Finite False m) m"
    using ms by (intro approx_value) (simp_all add: s)
  then have "approx (Suc 0) 1 (fadd (Finite True 0) (Finite False m)) m"
    by (rule approx_neg_zero) simp_all
  moreover have "\<forall>m \<in> set rest. 1 / 2 ^ 900 \<le> m \<and> m \<le> 2 ^ 900"
    using ms by (simp add: s)
  moreover have "Suc 0 + length rest \<le> 32" "1 + length rest \<le> 256"
    using True by (simp_all add: s)
  ultimately have "approx (Suc 0 + length rest) (1 + length rest)
      (foldl fadd (fadd (Finite True 0) (Finite False m)) (map (Finite False) rest))
      (m + sum_list rest)"
    by (rule approx_foldl)
  moreover have "pairwise_sum (map (Finite False) ms) =
      foldl fadd (fadd (Finite True 0) (Finite False m)) (map (Finite False) rest)"
    using True by (simp add: pairwise_sum_few s)
  ultimately have "approx (length ms) (length ms) (pairwise_sum (map (Finite False) ms))
      (sum_list ms)"
    by (simp add: s)
  then show ?thesis
    by (rule approx_weaken) (use True in simp_all)
next
  case False
  define n where "n = length ms"
  define k where "k = n div 8 - 1"
  have n: "8 \<le> n" "n \<le> 128"
    using False len by (simp_all add: n_def)
  have k: "8 * (k + 1) = n - n mod 8" "k \<le> 15"
    using n by (simp_all add: k_def minus_mod_eq_mult_div [symmetric] algebra_simps)
  have "\<forall>m \<in> set (take 8 ms). 1 / 2 ^ 900 \<le> m \<and> m \<le> 2 ^ 900"
    using ms by (auto dest: in_set_takeD)
  then have "list_all2 (approx 0 1) (map (Finite False) (take 8 ms)) (take 8 ms)"
    by (rule approx_values)
  moreover have "length (take 8 ms) = 8"
    using n by (simp add: n_def)
  moreover have "8 * k \<le> length (drop 8 ms)"
    using k(1) by (simp add: n_def)
  moreover have "\<forall>m \<in> set (drop 8 ms). 1 / 2 ^ 900 \<le> m \<and> m \<le> 2 ^ 900"
    using ms by (auto dest: in_set_dropD)
  moreover have "0 + k \<le> 32" "1 + k \<le> 256"
    using k(2) by simp_all
  ultimately obtain ws
    where ws: "list_all2 (approx (0 + k) (1 + k))
                 (add_blocks k (map (Finite False) (take 8 ms))
                    (map (Finite False) (drop 8 ms))) ws"
      and lws: "length ws = 8"
      and sws: "sum_list ws = sum_list (take 8 ms) + sum_list (take (8 * k) (drop 8 ms))"
    using approx_add_blocks [of 0 1 "map (Finite False) (take 8 ms)" "take 8 ms" k "drop 8 ms"]
    by blast
  have "take (8 * (k + 1)) ms = take 8 ms @ take (8 * k) (drop 8 ms)"
    by (simp add: take_add [symmetric])
  then have sws': "sum_list ws = sum_list (take (n - n mod 8) ms)"
    using sws k(1) by simp
  have "approx (0 + k + 3) (8 * (1 + k))
          (add_pairs (add_blocks k (map (Finite False) (take 8 ms))
             (map (Finite False) (drop 8 ms)))) (sum_list ws)"
    using ws lws k(2) by (intro approx_add_pairs) simp_all
  moreover have "\<forall>m \<in> set (drop (n - n mod 8) ms). 1 / 2 ^ 900 \<le> m \<and> m \<le> 2 ^ 900"
    using ms by (auto dest: in_set_dropD)
  moreover have l: "length (drop (n - n mod 8) ms) = n mod 8"
    using n by (simp add: n_def)
  moreover have "0 + k + 3 + length (drop (n - n mod 8) ms) \<le> 32"
    "8 * (1 + k) + length (drop (n - n mod 8) ms) \<le> 256"
    using k(2) unfolding l by simp_all
  ultimately have "approx (0 + k + 3 + length (drop (n - n mod 8) ms))
      (8 * (1 + k) + length (drop (n - n mod 8) ms))
      (foldl fadd
         (add_pairs (add_blocks k (map (Finite False) (take 8 ms))
            (map (Finite False) (drop 8 ms))))
         (map (Finite False) (drop (n - n mod 8) ms)))
      (sum_list ws + sum_list (drop (n - n mod 8) ms))"
    by (intro approx_foldl)
  moreover have "pairwise_sum (map (Finite False) ms) =
      foldl fadd
         (add_pairs (add_blocks k (map (Finite False) (take 8 ms))
            (map (Finite False) (drop 8 ms))))
         (map (Finite False) (drop (n - n mod 8) ms))"
    using n by (simp add: pairwise_sum_blocks n_def k_def take_map drop_map)
  moreover have "sum_list ws + sum_list (drop (n - n mod 8) ms) = sum_list ms"
    unfolding sws' by (simp add: sum_list_append [symmetric] del: sum_list_append)
  moreover have "8 * (1 + k) + length (drop (n - n mod 8) ms) = length ms"
    using k(1) n unfolding l by (simp add: n_def)
  ultimately have "approx (0 + k + 3 + length (drop (n - n mod 8) ms)) (length ms)
      (pairwise_sum (map (Finite False) ms)) (sum_list ms)"
    by simp
  moreover have "0 + k + 3 + length (drop (n - n mod 8) ms) \<le> 25"
    using k(2) unfolding l by simp
  ultimately show ?thesis
    by (rule approx_weaken) simp
qed

lemma approx_mean:
  assumes ne: "ms \<noteq> []" and len: "length ms \<le> 128"
    and ms: "\<forall>m \<in> set ms. 1 / 2 ^ 900 \<le> m \<and> m \<le> 2 ^ 900"
  shows "\<exists>z. mean (map (Finite False) ms) = Finite False z \<and>
             \<bar>z - arithmetic_mean ms\<bar> * 2 ^ 48 \<le> arithmetic_mean ms"
proof -
  define n :: rat where "n = of_nat (length ms)"
  have n: "1 \<le> n" "n \<le> 128"
    using ne len by (simp_all add: n_def Suc_le_eq)
  have "approx 25 (length ms) (pairwise_sum (map (Finite False) ms)) (sum_list ms)"
    using assms by (rule approx_pairwise_sum)
  then have "approx 26 (length ms) (np_sum (map (Finite False) ms)) (sum_list ms)"
    unfolding np_sum_def using len by (intro approx_neg_zero [of 25, simplified]) simp_all
  then obtain z where z: "np_sum (map (Finite False) ms) = Finite False z"
    and l: "sum_list ms * (1 - 1 / 2 ^ 53) ^ 26 \<le> z"
    and h: "z \<le> sum_list ms * (1 + 1 / 2 ^ 53) ^ 26"
    and v: "1 / 2 ^ 900 \<le> sum_list ms" "sum_list ms \<le> n * 2 ^ 900"
    unfolding approx_def n_def by blast
  define v where "v = arithmetic_mean ms"
  have vn: "sum_list ms = v * n"
    using n by (simp add: v_def arithmetic_mean_def n_def)
  have npos: "0 < n"
    using n by simp
  have l': "v * (1 - 1 / 2 ^ 53) ^ 26 \<le> z / n"
  proof -
    have "v * (1 - 1 / 2 ^ 53) ^ 26 * n \<le> z"
      using l by (simp add: vn mult.commute mult.left_commute)
    then show ?thesis
      using npos by (simp add: pos_le_divide_eq)
  qed
  have h': "z / n \<le> v * (1 + 1 / 2 ^ 53) ^ 26"
  proof -
    have "z \<le> v * (1 + 1 / 2 ^ 53) ^ 26 * n"
      using h by (simp add: vn mult.commute mult.left_commute)
    then show ?thesis
      using npos by (simp add: pos_divide_le_eq)
  qed
  have v1: "1 / 2 ^ 1000 \<le> v"
  proof -
    have "(1 :: rat) / 2 ^ 1000 * n \<le> 1 / 2 ^ 1000 * 128"
      using n(2) by (intro mult_left_mono) simp_all
    also have "\<dots> \<le> 1 / 2 ^ 900"
      by simp
    also have "\<dots> \<le> v * n"
      using v(1) by (simp only: vn)
    finally show ?thesis
      using npos by (simp only: mult_le_cancel_right_pos)
  qed
  have v2: "v \<le> 2 ^ 1000"
  proof -
    have "v * n \<le> 2 ^ 900 * n"
      using v(2) by (simp only: vn mult.commute)
    then have "v \<le> 2 ^ 900"
      using npos by (simp only: mult_le_cancel_right_pos)
    also have "\<dots> \<le> (2 :: rat) ^ 1000"
      by simp
    finally show ?thesis .
  qed
  obtain z' where r: "rnd False (z / n) = Finite False z'"
    and l'': "v * (1 - 1 / 2 ^ 53) ^ Suc 26 \<le> z'"
    and h'': "z' \<le> v * (1 + 1 / 2 ^ 53) ^ Suc 26"
    using rnd_step [OF l' h' v1 v2] by auto
  have vpos: "0 \<le> v"
    using v1 by (rule order_trans [rotated]) simp
  have "v * (1 - 1 / 2 ^ 48) \<le> v * (1 - 1 / 2 ^ 53) ^ 27"
    using ulp_powers_27(1) vpos by (rule mult_left_mono)
  then have lo: "v - v / 2 ^ 48 \<le> z'"
    using l'' by (simp add: algebra_simps)
  have "v * (1 + 1 / 2 ^ 53) ^ 27 \<le> v * (1 + 1 / 2 ^ 48)"
    using ulp_powers_27(2) vpos by (rule mult_left_mono)
  then have hi: "z' \<le> v + v / 2 ^ 48"
    using h'' by (simp add: algebra_simps)
  have "\<bar>z' - v\<bar> \<le> v / 2 ^ 48"
    using lo hi by linarith
  then have e: "\<bar>z' - v\<bar> * 2 ^ 48 \<le> v"
    by (simp add: field_simps)
  have "f64_of_int (int (length ms)) = Finite False n"
    using len f64_of_int_exact [of "int (length ms)"] by (simp add: n_def)
  moreover have "mean (map (Finite False) ms) =
      fdiv (np_sum (map (Finite False) ms)) (f64_of_int (int (length (map (Finite False) ms))))"
    using ne by (intro mean_numbers) auto
  ultimately have "mean (map (Finite False) ms) = Finite False z'"
    using z r npos by simp
  with e show ?thesis
    unfolding v_def by blast
qed

section \<open>Slices and the split\<close>

text \<open>
  The slices at \<open>- 216\<close>, and the preparation of a series that has a row: it raises
  nothing.
\<close>

lemma slice_bound_short: "length xs \<le> 216 \<Longrightarrow> slice_bound xs (- 216) = 0"
  by (simp add: slice_bound_def)

lemma slice_bound_long: "216 \<le> length xs \<Longrightarrow> slice_bound xs (- 216) = length xs - 216"
  by (simp add: slice_bound_def Let_def)

lemma split_long: "216 \<le> length df \<Longrightarrow> split df = (take (length df - 216) df, drop (length df - 216) df)"
  by (simp add: split_def iloc_upto_def iloc_from_def slice_bound_long)

lemma split_short: "length df \<le> 216 \<Longrightarrow> split df = ([], df)"
  by (simp add: split_def iloc_upto_def iloc_from_def slice_bound_short)

lemma iloc_last: "xs \<noteq> [] \<Longrightarrow> iloc xs (- 1) = Inr (last xs)"
  by (cases xs rule: rev_cases) (simp_all add: iloc_def)

lemma iloc_last_empty: "iloc [] (- 1) = Inl IndexError"
  by (simp add: iloc_def)

lemma project_future_ok:
  "df \<noteq> [] \<Longrightarrow> 0 \<le> horizon \<Longrightarrow>
   project_future model horizon df =
     Inr (model horizon,
          map (\<lambda>i. Max (set (map fst df)) + Timedelta_days 1 + Timedelta_days (int i))
            [0..<nat horizon])"
  by (simp add: project_future_def index_max_def date_range_def)

lemma summarize_ok:
  "df \<noteq> [] \<Longrightarrow> summarize df ff = Inr (snd (last df), mean ff)"
  by (simp add: summarize_def iloc_last last_map)

lemma prepare_ok:
  "df \<noteq> [] \<Longrightarrow> 0 \<le> horizon \<Longrightarrow>
   prepare model horizon df =
     Inr \<lparr>train = fst (split df), test = snd (split df),
          test_forecast = model (int (length (snd (split df)))),
          future_dates =
            map (\<lambda>i. Max (set (map fst df)) + Timedelta_days 1 + Timedelta_days (int i))
              [0..<nat horizon],
          future_forecast = model horizon,
          current_rate = snd (last df),
          avg_future = mean (model horizon)\<rparr>"
  by (simp add: prepare_def project_future_ok summarize_ok evaluate_test_def split: prod.splits)

lemma index_max_sorted:
  "df \<noteq> [] \<Longrightarrow> sorted (map fst df) \<Longrightarrow> Max (set (map fst df)) = fst (last df)"
proof (induction df rule: rev_induct)
  case Nil
  then show ?case by simp
next
  case (snoc x xs)
  show ?case
  proof (cases "xs = []")
    case True
    then show ?thesis by simp
  next
    case False
    from snoc.prems have "\<forall>d \<in> set (map fst xs). d \<le> fst x"
      by (auto simp add: sorted_append)
    then have "Max (set (map fst xs)) \<le> fst x"
      using False by simp
    moreover have "Max (set (map fst (xs @ [x]))) = max (fst x) (Max (set (map fst xs)))"
      using False by simp
    ultimately show ?thesis
      by (auto simp add: max_def)
  qed
qed

section \<open>The scenarios, evaluated\<close>

text \<open>
  The doubles of the scenarios. Each rounding is checked with \<open>rnd_nearest\<close>; the
  integer given to it is the significand of the result.
\<close>

lemma f64_470: "usd_4_70 = Finite False (5291729562160333 / 2 ^ 50)"
  using rnd_nearest [of "- 50" "47 / 10" 5291729562160333 False]
  by (simp add: usd_4_70_def f64_of_rat_def)

lemma f64_472: "usd_4_72 = Finite False (5314247560297185 / 2 ^ 50)"
  using rnd_nearest [of "- 50" "472 / 100" 5314247560297185 False]
  by (simp add: usd_4_72_def f64_of_rat_def)

lemma f64_474: "usd_4_74 = Finite False (5336765558434038 / 2 ^ 50)"
  using rnd_nearest [of "- 50" "474 / 100" 5336765558434038 False]
  by (simp add: usd_4_74_def f64_of_rat_def)

lemma f64_473: "usd_4_73 = Finite False (5325506559365612 / 2 ^ 50)"
  using rnd_nearest [of "- 50" "473 / 100" 5325506559365612 False]
  by (simp add: usd_4_73_def f64_of_rat_def)

lemma f64_460: "usd_4_60 = Finite False (5179139571476070 / 2 ^ 50)"
  using rnd_nearest [of "- 50" "46 / 10" 5179139571476070 False]
  by (simp add: usd_4_60_def f64_of_rat_def)

lemma rnd_472: "rnd False (5314247560297185 / 2 ^ 50) = Finite False (5314247560297185 / 2 ^ 50)"
  using rnd_nearest [of "- 50" "5314247560297185 / 2 ^ 50" 5314247560297185 False]
  by simp

lemma rnd_sum:
  "rnd False (5314247560297185 / 2 ^ 50 + 5336765558434038 / 2 ^ 50) =
     Finite False (5325506559365612 / 2 ^ 49)"
  using rnd_nearest [of "- 49" "5314247560297185 / 2 ^ 50 + 5336765558434038 / 2 ^ 50"
      5325506559365612 False]
  by simp

lemma rnd_half_sum:
  "rnd False (5325506559365612 / 2 ^ 49 / 2) = Finite False (5325506559365612 / 2 ^ 50)"
  using rnd_nearest [of "- 50" "5325506559365612 / 2 ^ 49 / 2" 5325506559365612 False]
  by simp

lemma rnd_sum_exact:
  "rnd False (5325506559365612 / 2 ^ 49) = Finite False (5325506559365612 / 2 ^ 49)"
  using rnd_nearest [of "- 49" "5325506559365612 / 2 ^ 49" 5325506559365612 False]
  by simp

lemma mean_scenario:
  "mean [usd_4_72, usd_4_74] = usd_4_73"
proof -
  have "fadd (Finite True 0) usd_4_72 = Finite False (5314247560297185 / 2 ^ 50)"
    using rnd_472 by (simp add: f64_472 signed_def)
  then have "pairwise_sum [usd_4_72, usd_4_74] = Finite False (5325506559365612 / 2 ^ 49)"
    using rnd_sum by (simp add: pairwise_sum_few f64_474 signed_def)
  then have "np_sum [usd_4_72, usd_4_74] = Finite False (5325506559365612 / 2 ^ 49)"
    using rnd_sum_exact by (simp add: np_sum_def signed_def)
  moreover have "f64_of_int (int (length [usd_4_72, usd_4_74])) = Finite False 2"
    using f64_of_int_exact [of 2] by simp
  moreover have "NaN \<notin> set [usd_4_72, usd_4_74]"
    by (simp add: f64_472 f64_474)
  ultimately show ?thesis
    using rnd_half_sum by (simp add: mean_numbers f64_473)
qed

lemma rising_model_8: "rising_model 8 = map (Finite False) eight_values"
  using
    rnd_nearest [of "- 50" "404 / 100" 4548635623644201 False]
    rnd_nearest [of "- 50" "405 / 100" 4559894622712627 False]
    rnd_nearest [of "- 50" "406 / 100" 4571153621781053 False]
    rnd_nearest [of "- 50" "407 / 100" 4582412620849480 False]
    rnd_nearest [of "- 50" "408 / 100" 4593671619917906 False]
    rnd_nearest [of "- 50" "409 / 100" 4604930618986332 False]
    rnd_nearest [of "- 50" "410 / 100" 4616189618054758 False]
    rnd_nearest [of "- 50" "411 / 100" 4627448617123185 False]
  by (simp add: rising_model_def eight_values_def f64_of_rat_def upto_rec1)

lemma pair_01:
  "rnd False (4548635623644201 / 2 ^ 50 + 4559894622712627 / 2 ^ 50) = Finite False (4554265123178414 / 2 ^ 49)"
  using rnd_nearest [of "- 49" "4548635623644201 / 2 ^ 50 + 4559894622712627 / 2 ^ 50" 4554265123178414 False]
  by simp

lemma pair_23:
  "rnd False (4571153621781053 / 2 ^ 50 + 4582412620849480 / 2 ^ 50) = Finite False (4576783121315266 / 2 ^ 49)"
  using rnd_nearest [of "- 49" "4571153621781053 / 2 ^ 50 + 4582412620849480 / 2 ^ 50" 4576783121315266 False]
  by simp

lemma pair_45:
  "rnd False (4593671619917906 / 2 ^ 50 + 4604930618986332 / 2 ^ 50) = Finite False (4599301119452119 / 2 ^ 49)"
  using rnd_nearest [of "- 49" "4593671619917906 / 2 ^ 50 + 4604930618986332 / 2 ^ 50" 4599301119452119 False]
  by simp

lemma pair_67:
  "rnd False (4616189618054758 / 2 ^ 50 + 4627448617123185 / 2 ^ 50) = Finite False (4621819117588972 / 2 ^ 49)"
  using rnd_nearest [of "- 49" "4616189618054758 / 2 ^ 50 + 4627448617123185 / 2 ^ 50" 4621819117588972 False]
  by simp

lemma quad_0123:
  "rnd False (4554265123178414 / 2 ^ 49 + 4576783121315266 / 2 ^ 49) = Finite False (4565524122246840 / 2 ^ 48)"
  using rnd_nearest [of "- 48" "4554265123178414 / 2 ^ 49 + 4576783121315266 / 2 ^ 49" 4565524122246840 False]
  by simp

lemma quad_4567:
  "rnd False (4599301119452119 / 2 ^ 49 + 4621819117588972 / 2 ^ 49) = Finite False (4610560118520546 / 2 ^ 48)"
  using rnd_nearest [of "- 48" "4599301119452119 / 2 ^ 49 + 4621819117588972 / 2 ^ 49" 4610560118520546 False]
  by simp

lemma all_eight:
  "rnd False (4565524122246840 / 2 ^ 48 + 4610560118520546 / 2 ^ 48) = Finite False (4588042120383693 / 2 ^ 47)"
  using rnd_nearest [of "- 47" "4565524122246840 / 2 ^ 48 + 4610560118520546 / 2 ^ 48" 4588042120383693 False]
  by simp

lemma all_eight_exact:
  "rnd False (4588042120383693 / 2 ^ 47) = Finite False (4588042120383693 / 2 ^ 47)"
  using rnd_nearest [of "- 47" "4588042120383693 / 2 ^ 47" 4588042120383693 False]
  by simp

lemma eighth:
  "rnd False (4588042120383693 / 2 ^ 47 / 8) = Finite False (4588042120383693 / 2 ^ 50)"
  using rnd_nearest [of "- 50" "4588042120383693 / 2 ^ 47 / 8" 4588042120383693 False]
  by simp

lemma first_exact:
  "rnd False (4548635623644201 / 2 ^ 50) = Finite False (4548635623644201 / 2 ^ 50)"
  using rnd_nearest [of "- 50" "4548635623644201 / 2 ^ 50" 4548635623644201 False]
  by simp

lemma running_2:
  "rnd False (4554265123178414 / 2 ^ 49 + 4571153621781053 / 2 ^ 50) = Finite False (6839841934068940 / 2 ^ 49)"
  using rnd_nearest [of "- 49" "4554265123178414 / 2 ^ 49 + 4571153621781053 / 2 ^ 50" 6839841934068940 False]
  by simp

lemma running_3:
  "rnd False (6839841934068940 / 2 ^ 49 + 4582412620849480 / 2 ^ 50) = Finite False (4565524122246840 / 2 ^ 48)"
  using rnd_nearest [of "- 48" "6839841934068940 / 2 ^ 49 + 4582412620849480 / 2 ^ 50" 4565524122246840 False]
  by simp

lemma running_4:
  "rnd False (4565524122246840 / 2 ^ 48 + 4593671619917906 / 2 ^ 50) = Finite False (5713942027226316 / 2 ^ 48)"
  using rnd_nearest [of "- 48" "4565524122246840 / 2 ^ 48 + 4593671619917906 / 2 ^ 50" 5713942027226316 False]
  by simp

lemma running_5:
  "rnd False (5713942027226316 / 2 ^ 48 + 4604930618986332 / 2 ^ 50) = Finite False (6865174681972899 / 2 ^ 48)"
  using rnd_nearest [of "- 48" "5713942027226316 / 2 ^ 48 + 4604930618986332 / 2 ^ 50" 6865174681972899 False]
  by simp

lemma running_6:
  "rnd False (6865174681972899 / 2 ^ 48 + 4616189618054758 / 2 ^ 50) = Finite False (8019222086486588 / 2 ^ 48)"
  using rnd_nearest [of "- 48" "6865174681972899 / 2 ^ 48 + 4616189618054758 / 2 ^ 50" 8019222086486588 False]
  by simp

lemma running_7:
  "rnd False (8019222086486588 / 2 ^ 48 + 4627448617123185 / 2 ^ 50) = Finite False (4588042120383692 / 2 ^ 47)"
  using rnd_nearest [of "- 47" "8019222086486588 / 2 ^ 48 + 4627448617123185 / 2 ^ 50" 4588042120383692 False]
  by simp

lemma running_eighth:
  "rnd False (4588042120383692 / 2 ^ 47 / 8) = Finite False (4588042120383692 / 2 ^ 50)"
  using rnd_nearest [of "- 50" "4588042120383692 / 2 ^ 47 / 8" 4588042120383692 False]
  by simp

lemma eight_values_pairwise:
  "pairwise_sum (map (Finite False) eight_values) = Finite False (4588042120383693 / 2 ^ 47)"
  using pair_01 pair_23 pair_45 pair_67 quad_0123 quad_4567 all_eight
  by (simp add: pairwise_sum_blocks eight_values_def add_pairs_def signed_def)

lemma eight_values_mean:
  "mean (map (Finite False) eight_values) = Finite False (4588042120383693 / 2 ^ 50)"
proof -
  have "np_sum (map (Finite False) eight_values) = Finite False (4588042120383693 / 2 ^ 47)"
    using all_eight_exact by (simp add: np_sum_def eight_values_pairwise signed_def)
  moreover have "f64_of_int (int (length (map (Finite False) eight_values))) = Finite False 8"
    using f64_of_int_exact [of 8] by (simp add: eight_values_def)
  moreover have "NaN \<notin> set (map (Finite False) eight_values)"
    by auto
  moreover have "map (Finite False) eight_values \<noteq> []"
    by (simp add: eight_values_def)
  ultimately show ?thesis
    using eighth by (simp add: mean_numbers)
qed

lemma eight_values_running:
  "fdiv (foldl fadd fzero (map (Finite False) eight_values)) (f64_of_int 8) =
     Finite False (4588042120383692 / 2 ^ 50)"
proof -
  have "foldl fadd fzero (map (Finite False) eight_values) =
      Finite False (4588042120383692 / 2 ^ 47)"
    using first_exact pair_01 running_2 running_3 running_4 running_5 running_6 running_7
    by (simp add: eight_values_def fzero_def signed_def)
  moreover have "f64_of_int 8 = Finite False 8"
    using f64_of_int_exact [of 8] by simp
  ultimately show ?thesis
    using running_eighth by simp
qed

lemma f64_20000: "f64_of_int 20000 = Finite False 20000"
  using f64_of_int_exact [of 20000] by simp

lemma Cost_MYR_exact:
  "map f64_of_int Cost_MYR = [Finite False 2000, Finite False 8000, Finite False 45000, Finite False 7500]"
  using f64_of_int_exact [of 2000] f64_of_int_exact [of 8000] f64_of_int_exact [of 45000]
    f64_of_int_exact [of 7500]
  by (simp add: Cost_MYR_def)

lemma pay_today_470:
  "rnd False (20000 / (5291729562160333 / 2 ^ 50)) = Finite False (4678772884153191 / 2 ^ 40)"
  using rnd_nearest [of "- 40" "20000 / (5291729562160333 / 2 ^ 50)" 4678772884153191 False]
  by simp

lemma pay_later_460:
  "rnd False (20000 / (5179139571476070 / 2 ^ 50)) = Finite False (4780485338156522 / 2 ^ 40)"
  using rnd_nearest [of "- 40" "20000 / (5179139571476070 / 2 ^ 50)" 4780485338156522 False]
  by simp

lemma savings_470_460:
  "rnd True (4780485338156522 / 2 ^ 40 - 4678772884153191 / 2 ^ 40) =
     Finite True (101712454003331 / 2 ^ 40)"
  using rnd_nearest [of "- 46" "4780485338156522 / 2 ^ 40 - 4678772884153191 / 2 ^ 40"
      6509597056213184 True]
  by simp

lemma pay_near_low:
  "rnd False (20000 / (5291729562160334 / 2 ^ 50)) = Finite False (4678772884153190 / 2 ^ 40)"
  using rnd_nearest [of "- 40" "20000 / (5291729562160334 / 2 ^ 50)" 4678772884153190 False]
  by simp

lemma pay_near_high:
  "rnd False (20000 / (5291729562160335 / 2 ^ 50)) = Finite False (4678772884153190 / 2 ^ 40)"
  using rnd_nearest [of "- 40" "20000 / (5291729562160335 / 2 ^ 50)" 4678772884153190 False]
  by simp

lemma is_f64_near_low: "is_f64 near_rate_low"
  using rnd_nearest [of "- 50" "5291729562160334 / 2 ^ 50" 5291729562160334 False]
  by (simp add: near_rate_low_def is_f64_def)

lemma is_f64_near_high: "is_f64 near_rate_high"
  using rnd_nearest [of "- 50" "5291729562160335 / 2 ^ 50" 5291729562160335 False]
  by (simp add: near_rate_high_def is_f64_def)

lemma is_f64_470: "is_f64 usd_4_70"
  using rnd_nearest [of "- 50" "5291729562160333 / 2 ^ 50" 5291729562160333 False]
  by (simp add: f64_470 is_f64_def)

lemma is_f64_least: "is_f64 least_double"
proof -
  have "round_units 1 = 1"
    using round_units_small [of 1] rhe_of_int [of 1] by simp
  then show ?thesis
    by (simp add: least_double_def is_f64_def rnd_def overflow_units_def)
qed

lemma overflow_2000: "fdiv (Finite False 2000) least_double = Infinity False"
  by (simp add: least_double_def rnd_def overflow_units_def)

lemma usd_columns:
  "usd_current (cost_conversion cur fut c) = map (\<lambda>k. fdiv k cur) (map f64_of_int Cost_MYR) \<and>
   usd_forecasted (cost_conversion cur fut c) = map (\<lambda>k. fdiv k fut) (map f64_of_int Cost_MYR) \<and>
   estimated_cost (cost_conversion cur fut c) = [fdiv (f64_of_int c) cur, fdiv (f64_of_int c) fut] \<and>
   savings (cost_conversion cur fut c) = fsub (fdiv (f64_of_int c) cur) (fdiv (f64_of_int c) fut) \<and>
   savings_box (cost_conversion cur fut c) =
     (if fgt (savings (cost_conversion cur fut c)) fzero
      then Savings (savings (cost_conversion cur fut c)) else no_advantage_message)"
  by (simp add: cost_conversion_def Let_def comp_def)

lemma hospitals_lookup_present:
  assumes "location \<in> set cities"
  shows "\<exists>hs. hospitals_lookup location = Inr hs"
  using assms by (auto simp add: hospitals_lookup_def hospitals_def cities_def)

lemma is_f64_460: "is_f64 usd_4_60"
  using rnd_nearest [of "- 50" "5179139571476070 / 2 ^ 50" 5179139571476070 False]
  by (simp add: f64_460 is_f64_def)

lemma is_f64_473: "is_f64 usd_4_73"
  using rnd_nearest [of "- 50" "5325506559365612 / 2 ^ 50" 5325506559365612 False]
  by (simp add: f64_473 is_f64_def)

section \<open>The split of the series\<close>

text \<open>
  Claim C1. For every series of at least 216 rows, \<open>split\<close> gives a train and a test
  part whose lengths add up to the length of the series, and the test part is exactly
  the last 216 rows. Whatever the horizon between 1 and 30, the forecast preparation
  succeeds with this same test part, and \<open>test_forecast\<close> is the model's forecast of 216
  steps, of length 216 when the model returns as many values as it is asked for.
\<close>

theorem split_lengths:
  assumes "216 \<le> length df"
  shows "length (fst (split df)) + length (snd (split df)) = length df \<and>
         length (snd (split df)) = 216 \<and>
         snd (split df) = drop (length df - 216) df \<and>
         (\<forall>model horizon. 1 \<le> horizon \<and> horizon \<le> 30 \<longrightarrow>
            (\<exists>r. prepare model horizon df = Inr r \<and> test r = snd (split df) \<and>
                 test_forecast r = model 216 \<and>
                 (length (model 216) = 216 \<longrightarrow> length (test_forecast r) = 216)))"
proof -
  from assms have ne: "df \<noteq> []" by auto
  from assms have len: "length (snd (split df)) = 216"
    by (simp add: split_long)
  show ?thesis
    using assms len by (simp add: split_long prepare_ok [OF ne])
qed

theorem split_lengths_witness:
  "216 \<le> length (sample_series 300) \<and>
   length (fst (split (sample_series 300))) = 84 \<and>
   length (snd (split (sample_series 300))) = 216"
  using split_lengths [of "sample_series 300"]
  by (simp add: sample_series_def)

text \<open>
  Claim C2 says that a series of fewer than 216 rows makes \<open>split\<close> fail with an index
  error. It does not: a slice clips its bounds, so the train part is empty, the test
  part is the whole series, and no exception is raised. The series of one row is an
  example: the split returns, and the preparation that follows does not end in
  \<open>IndexError\<close>.
\<close>

theorem split_short_counterexample:
  "split (sample_series 1) = ([], sample_series 1) \<and>
   prepare sample_model 7 (sample_series 1) \<noteq> Inl IndexError"
  by (simp add: split_short prepare_ok sample_series_def)

text \<open>
  Claim C2, amended. For every series of fewer than 216 rows, \<open>split\<close> returns the empty
  train part and the whole series as the test part; when the series has a row at all,
  the preparation succeeds with these parts for every horizon that is not negative.
\<close>

theorem split_short_no_error:
  assumes "length df < 216"
  shows "split df = ([], df) \<and>
         (df \<noteq> [] \<longrightarrow> (\<forall>model horizon. 0 \<le> horizon \<longrightarrow>
            (\<exists>r. prepare model horizon df = Inr r \<and> train r = [] \<and> test r = df)))"
  using assms by (simp add: split_short prepare_ok)

theorem split_short_no_error_witness:
  "length (sample_series 100) < 216 \<and>
   split (sample_series 100) = ([], sample_series 100)"
  using split_short_no_error [of "sample_series 100"]
  by (simp add: sample_series_def)

section \<open>The projection\<close>

text \<open>
  Claim C4. For every horizon \<open>h\<close> from 1 to 30, a series with at least one row and a
  model whose forecast of \<open>h\<close> steps has \<open>h\<close> values, \<open>project_future\<close> returns \<open>h\<close>
  forecast values and \<open>h\<close> dates; the date at position \<open>i\<close> is \<open>i + 1\<close> days after the
  latest date of the series, which is the date of the last row when the rows are in
  order of date.
\<close>

theorem project_future_lengths:
  assumes "1 \<le> h" and "h \<le> 30" and "df \<noteq> []" and "length (model h) = nat h"
  shows "\<exists>ff fd. project_future model h df = Inr (ff, fd) \<and>
           ff = model h \<and> length ff = nat h \<and> length fd = nat h \<and>
           (\<forall>i < nat h. fd ! i = Max (set (map fst df)) + Timedelta_days (1 + int i)) \<and>
           (sorted (map fst df) \<longrightarrow> fd ! 0 = fst (last df) + Timedelta_days 1)"
proof -
  have "sorted (map fst df) \<longrightarrow> Max (set (map fst df)) = fst (last df)"
    using assms(3) index_max_sorted by blast
  then show ?thesis
    using assms by (simp add: project_future_ok Timedelta_days_def algebra_simps)
qed

theorem project_future_lengths_witness:
  "(1::int) \<le> 7 \<and> (7::int) \<le> 30 \<and> sample_series 3 \<noteq> [] \<and>
   length (sample_model 7) = nat 7 \<and>
   (\<exists>ff fd. project_future sample_model 7 (sample_series 3) = Inr (ff, fd) \<and>
      length ff = 7 \<and> length fd = 7)"
  using project_future_lengths [of 7 "sample_series 3" sample_model]
  by (auto simp add: sample_series_def sample_model_def)

section \<open>The summary\<close>

text \<open>
  Claim C8. For a series with at least one row, \<open>summarize\<close> returns the value of the
  last row and the mean of the forecast of \<open>horizon\<close> steps, and these are the
  \<open>current_rate\<close> and \<open>avg_future\<close> of the preparation. The pair depends on nothing
  else: two runs whose series end with the same value and whose models forecast the same
  values return the same pair, so two runs on identical inputs do. The mean is the
  arithmetic mean of the forecast, computed in doubles: for up to 128 forecast values
  between \<open>2^-900\<close> and \<open>2^900\<close> (a horizon is at most 30 days) it is a positive double
  within the fraction \<open>2^-48\<close> of the exact quotient of the sum by the number of values.
  The sum follows numpy's order: on the eight forecasts \<open>4.04\<close>, ..., \<open>4.11\<close> the mean
  is \<open>4.075\<close>, where adding from left to right gives \<open>4.074999999999999\<close>.
\<close>

theorem summarize_deterministic:
  assumes "df \<noteq> []"
  shows "summarize df (model horizon) = Inr (snd (last df), mean (model horizon)) \<and>
         (\<forall>df' model' horizon'.
            df' \<noteq> [] \<and> snd (last df') = snd (last df) \<and> model' horizon' = model horizon \<longrightarrow>
            summarize df' (model' horizon') = summarize df (model horizon)) \<and>
         (0 \<le> horizon \<longrightarrow>
            (\<exists>r. prepare model horizon df = Inr r \<and> future_forecast r = model horizon \<and>
                 current_rate r = snd (last df) \<and> avg_future r = mean (future_forecast r))) \<and>
         (\<forall>ms. model horizon = map (Finite False) ms \<and> ms \<noteq> [] \<and> length ms \<le> 128 \<and>
               (\<forall>m \<in> set ms. 1 / 2 ^ 900 \<le> m \<and> m \<le> 2 ^ 900) \<longrightarrow>
            (\<exists>z. mean (model horizon) = Finite False z \<and>
                 \<bar>z - arithmetic_mean ms\<bar> * 2 ^ 48 \<le> arithmetic_mean ms)) \<and>
         mean (rising_model 8) = Finite False (4588042120383693 / 2 ^ 50) \<and>
         fdiv (foldl fadd fzero (rising_model 8)) (f64_of_int 8) =
           Finite False (4588042120383692 / 2 ^ 50)"
proof -
  have a: "summarize df (model horizon) = Inr (snd (last df), mean (model horizon))"
    using assms by (simp add: summarize_ok)
  have b: "summarize df' (model' horizon') = summarize df (model horizon)"
    if "df' \<noteq> []" and "snd (last df') = snd (last df)" and "model' horizon' = model horizon"
    for df' model' horizon'
    using that a by (simp add: summarize_ok)
  have c: "\<exists>r. prepare model horizon df = Inr r \<and> future_forecast r = model horizon \<and>
               current_rate r = snd (last df) \<and> avg_future r = mean (future_forecast r)"
    if "0 \<le> horizon"
    using that assms by (simp add: prepare_ok)
  have d: "\<exists>z. mean (model horizon) = Finite False z \<and>
               \<bar>z - arithmetic_mean ms\<bar> * 2 ^ 48 \<le> arithmetic_mean ms"
    if "model horizon = map (Finite False) ms" and "ms \<noteq> []" and "length ms \<le> 128"
      and "\<forall>m \<in> set ms. 1 / 2 ^ 900 \<le> m \<and> m \<le> 2 ^ 900"
    for ms
    unfolding that(1) using that(2-4) by (rule approx_mean)
  have e: "mean (rising_model 8) = Finite False (4588042120383693 / 2 ^ 50)"
    unfolding rising_model_8 by (rule eight_values_mean)
  have f: "fdiv (foldl fadd fzero (rising_model 8)) (f64_of_int 8) =
             Finite False (4588042120383692 / 2 ^ 50)"
    unfolding rising_model_8 by (rule eight_values_running)
  show ?thesis
  proof (intro conjI allI impI)
    show "summarize df (model horizon) = Inr (snd (last df), mean (model horizon))"
      by (rule a)
    show "summarize df' (model' horizon') = summarize df (model horizon)"
      if "df' \<noteq> [] \<and> snd (last df') = snd (last df) \<and> model' horizon' = model horizon"
      for df' model' horizon'
      using that by (intro b) simp_all
    show "\<exists>r. prepare model horizon df = Inr r \<and> future_forecast r = model horizon \<and>
              current_rate r = snd (last df) \<and> avg_future r = mean (future_forecast r)"
      if "0 \<le> horizon"
      using that by (rule c)
    show "\<exists>z. mean (model horizon) = Finite False z \<and>
              \<bar>z - arithmetic_mean ms\<bar> * 2 ^ 48 \<le> arithmetic_mean ms"
      if "model horizon = map (Finite False) ms \<and> ms \<noteq> [] \<and> length ms \<le> 128 \<and>
          (\<forall>m \<in> set ms. 1 / 2 ^ 900 \<le> m \<and> m \<le> 2 ^ 900)"
      for ms
      using that by (intro d) blast+
    show "mean (rising_model 8) = Finite False (4588042120383693 / 2 ^ 50)"
      by (rule e)
    show "fdiv (foldl fadd fzero (rising_model 8)) (f64_of_int 8) =
            Finite False (4588042120383692 / 2 ^ 50)"
      by (rule f)
  qed
qed


theorem summarize_deterministic_witness:
  "sample_series 3 \<noteq> [] \<and> sample_series 5 \<noteq> [] \<and> (0 :: int) \<le> 8 \<and>
   snd (last (sample_series 5)) = snd (last (sample_series 3)) \<and>
   summarize (sample_series 3) (rising_model 8) =
     Inr (sample_rate, Finite False (4588042120383693 / 2 ^ 50)) \<and>
   summarize (sample_series 5) (rising_model 8) =
     summarize (sample_series 3) (rising_model 8) \<and>
   (\<exists>r. prepare rising_model 8 (sample_series 3) = Inr r \<and>
        current_rate r = sample_rate \<and>
        avg_future r = Finite False (4588042120383693 / 2 ^ 50)) \<and>
   rising_model 8 = map (Finite False) eight_values \<and> eight_values \<noteq> [] \<and>
   length eight_values \<le> 128 \<and>
   list_all (\<lambda>m. 1 / 2 ^ 900 \<le> m \<and> m \<le> 2 ^ 900) eight_values \<and>
   (\<exists>z. mean (rising_model 8) = Finite False z \<and>
        \<bar>z - arithmetic_mean eight_values\<bar> * 2 ^ 48 \<le> arithmetic_mean eight_values)"
proof -
  have ne: "sample_series 3 \<noteq> []" "sample_series 5 \<noteq> []"
    by (simp_all add: sample_series_def)
  have l3: "snd (last (sample_series 3)) = sample_rate"
    by (simp add: sample_series_def last_map)
  have l5: "snd (last (sample_series 5)) = sample_rate"
    by (simp add: sample_series_def last_map)
  have h: "(0 :: int) \<le> 8"
    by simp
  have v: "eight_values \<noteq> []" "length eight_values \<le> 128"
    by (simp_all add: eight_values_def)
  have r: "\<forall>m \<in> set eight_values. 1 / 2 ^ 900 \<le> m \<and> m \<le> 2 ^ 900"
    by (simp add: eight_values_def)
  have r': "list_all (\<lambda>m. 1 / 2 ^ 900 \<le> m \<and> m \<le> 2 ^ 900) eight_values"
    using r by (simp only: list_all_iff)
  note t = summarize_deterministic [of "sample_series 3" rising_model 8, OF ne(1)]
  have t1: "summarize (sample_series 3) (rising_model 8) =
              Inr (snd (last (sample_series 3)), mean (rising_model 8))"
    using t by (rule conjunct1)
  have t2: "summarize (sample_series 5) (rising_model 8) =
              summarize (sample_series 3) (rising_model 8)"
  proof -
    have "sample_series 5 \<noteq> [] \<and>
          snd (last (sample_series 5)) = snd (last (sample_series 3)) \<and>
          rising_model 8 = rising_model 8"
      using ne(2) by (simp only: l3 l5 simp_thms)
    then show ?thesis
      by (rule t [THEN conjunct2, THEN conjunct1, rule_format,
            of "sample_series 5" rising_model 8])
  qed
  obtain r where t3: "prepare rising_model 8 (sample_series 3) = Inr r"
      "future_forecast r = rising_model 8" "current_rate r = snd (last (sample_series 3))"
      "avg_future r = mean (future_forecast r)"
    using t [THEN conjunct2, THEN conjunct2, THEN conjunct1] h by blast
  have t4: "\<exists>z. mean (rising_model 8) = Finite False z \<and>
                \<bar>z - arithmetic_mean eight_values\<bar> * 2 ^ 48 \<le> arithmetic_mean eight_values"
    using t [THEN conjunct2, THEN conjunct2, THEN conjunct2, THEN conjunct1]
      rising_model_8 v r by blast
  have t5: "mean (rising_model 8) = Finite False (4588042120383693 / 2 ^ 50)"
    using t [THEN conjunct2, THEN conjunct2, THEN conjunct2, THEN conjunct2]
    by (rule conjunct1)
  have a: "summarize (sample_series 3) (rising_model 8) =
             Inr (sample_rate, Finite False (4588042120383693 / 2 ^ 50))"
    using t1 by (simp only: l3 t5)
  have c: "\<exists>r. prepare rising_model 8 (sample_series 3) = Inr r \<and>
               current_rate r = sample_rate \<and>
               avg_future r = Finite False (4588042120383693 / 2 ^ 50)"
  proof -
    have "current_rate r = sample_rate"
      using t3(3) by (simp only: l3)
    moreover have "avg_future r = Finite False (4588042120383693 / 2 ^ 50)"
      using t3(4) by (simp only: t3(2) t5)
    ultimately show ?thesis
      using t3(1) by blast
  qed
  have l: "snd (last (sample_series 5)) = snd (last (sample_series 3))"
    by (simp only: l3 l5)
  show ?thesis
    using ne h l a t2 c rising_model_8 v r' t4 by (intro conjI)
qed

section \<open>The hospital catalogue\<close>

text \<open>
  Claim C7. The catalogue has the four cities of the selector as its keys. For every
  city that is not one of them, the lookup raises \<open>KeyError\<close>, and so does the Budget
  view; it returns no list, empty or not.
\<close>

theorem hospitals_lookup_missing:
  assumes "location \<notin> set (map fst hospitals)"
  shows "map fst hospitals = cities \<and>
         hospitals_lookup location = Inl KeyError \<and>
         budget_planner cur fut user_cost_myr location = Inl KeyError"
  using assms by (simp add: budget_planner_def hospitals_lookup_def hospitals_def cities_def)

theorem hospitals_lookup_missing_witness:
  "''Ipoh'' \<notin> set (map fst hospitals) \<and> hospitals_lookup ''Ipoh'' = Inl KeyError"
  using hospitals_lookup_missing [of "''Ipoh''"]
  by (simp add: hospitals_def cities_def)

section \<open>The advisory of the Market view\<close>

text \<open>
  Claim C5. The Market view shows one of two fixed, distinct messages, and the sign of
  the delta \<open>avg_future - current_rate\<close> that it displays decides which: the favorable
  message when the delta is positive, the monitor message otherwise. In the scenario,
  the mean of the forecasts 4.72 and 4.74 is 4.73 and, against a series whose last
  value is 4.70, the favorable message is shown.
\<close>

theorem market_advisory:
  assumes "is_f64 cur" and "is_f64 fut"
  shows "metric_delta (market_insights cur fut) = fsub fut cur \<and>
         action_plan (market_insights cur fut) =
           (if fgt (metric_delta (market_insights cur fut)) fzero
            then favorable_message else monitor_message) \<and>
         favorable_message \<noteq> monitor_message \<and>
         mean [usd_4_72, usd_4_74] = usd_4_73 \<and>
         action_plan (market_insights usd_4_70 (mean [usd_4_72, usd_4_74])) =
           favorable_message \<and>
         (\<forall>df model h. df \<noteq> [] \<and> snd (last df) = usd_4_70 \<and> 0 \<le> h \<and>
              model h = [usd_4_72, usd_4_74] \<longrightarrow>
            (\<exists>r. prepare model h df = Inr r \<and> current_rate r = usd_4_70 \<and>
                 avg_future r = usd_4_73 \<and>
                 action_plan (market_insights (current_rate r) (avg_future r)) =
                   favorable_message))"
proof -
  have "fgt usd_4_73 usd_4_70"
    by (simp add: f64_473 f64_470 signed_def)
  then have sc: "action_plan (market_insights usd_4_70 usd_4_73) = favorable_message"
    by (simp add: market_insights_def)
  have gen: "metric_delta (market_insights cur fut) = fsub fut cur \<and>
      action_plan (market_insights cur fut) =
        (if fgt (metric_delta (market_insights cur fut)) fzero
         then favorable_message else monitor_message)"
    using fsub_sign [OF assms(2) assms(1)] by (simp add: market_insights_def)
  have ne: "favorable_message \<noteq> monitor_message"
    by (simp add: favorable_message_def monitor_message_def)
  have "\<exists>r. prepare model h df = Inr r \<and> current_rate r = usd_4_70 \<and>
          avg_future r = usd_4_73 \<and>
          action_plan (market_insights (current_rate r) (avg_future r)) = favorable_message"
    if "df \<noteq> []" and "snd (last df) = usd_4_70" and "0 \<le> h"
      and "model h = [usd_4_72, usd_4_74]"
    for df :: series and model :: fitted_model and h
    using that sc by (simp add: prepare_ok mean_scenario)
  then show ?thesis
    using gen ne sc mean_scenario by (simp only: simp_thms) blast
qed

theorem market_advisory_witness:
  "is_f64 usd_4_70 \<and> is_f64 usd_4_73 \<and>
   metric_delta (market_insights usd_4_70 usd_4_73) = fsub usd_4_73 usd_4_70 \<and>
   fgt (fsub usd_4_73 usd_4_70) fzero \<and>
   action_plan (market_insights usd_4_70 usd_4_73) = favorable_message"
proof -
  have "fgt usd_4_73 usd_4_70"
    by (simp add: f64_473 f64_470 signed_def)
  then have "fgt (fsub usd_4_73 usd_4_70) fzero"
    using fsub_sign [OF is_f64_473 is_f64_470] by simp
  then show ?thesis
    using is_f64_470 is_f64_473 market_advisory [OF is_f64_470 is_f64_473] by simp
qed

section \<open>The savings of the Budget view\<close>

text \<open>
  Claim C6. The Budget view computes the cost in USD at \<open>current_rate\<close> and at
  \<open>avg_future\<close>, takes their difference as the savings, and reports the savings when
  they are positive and no advantage otherwise. For a cost of 20000 MYR, a current rate
  of 4.70 and a future average of 4.60, the two costs are shown as 4255.32 and 4347.83,
  the savings as -92.51, and the box says that there is no advantage.
\<close>

theorem budget_savings:
  "estimated_cost (cost_conversion cur fut user_cost_myr) =
     [fdiv (f64_of_int user_cost_myr) cur, fdiv (f64_of_int user_cost_myr) fut] \<and>
   savings (cost_conversion cur fut user_cost_myr) =
     fsub (fdiv (f64_of_int user_cost_myr) cur) (fdiv (f64_of_int user_cost_myr) fut) \<and>
   savings_box (cost_conversion cur fut user_cost_myr) =
     (if fgt (savings (cost_conversion cur fut user_cost_myr)) fzero
      then Savings (savings (cost_conversion cur fut user_cost_myr)) else no_advantage_message) \<and>
   shown_as (estimated_cost (cost_conversion usd_4_70 usd_4_60 20000) ! 0) (425532 / 100) \<and>
   shown_as (estimated_cost (cost_conversion usd_4_70 usd_4_60 20000) ! 1) (434783 / 100) \<and>
   shown_as (savings (cost_conversion usd_4_70 usd_4_60 20000)) (- (9251 / 100)) \<and>
   savings_box (cost_conversion usd_4_70 usd_4_60 20000) = no_advantage_message"
proof -
  have a: "fdiv (f64_of_int 20000) usd_4_70 = Finite False (4678772884153191 / 2 ^ 40)"
    using pay_today_470 by (simp add: f64_20000 f64_470)
  have b: "fdiv (f64_of_int 20000) usd_4_60 = Finite False (4780485338156522 / 2 ^ 40)"
    using pay_later_460 by (simp add: f64_20000 f64_460)
  have s: "fsub (Finite False (4678772884153191 / 2 ^ 40)) (Finite False (4780485338156522 / 2 ^ 40)) =
      Finite True (101712454003331 / 2 ^ 40)"
    using savings_470_460 by (simp add: fsub_def signed_def)
  have gen: "estimated_cost (cost_conversion cur fut user_cost_myr) =
       [fdiv (f64_of_int user_cost_myr) cur, fdiv (f64_of_int user_cost_myr) fut] \<and>
     savings (cost_conversion cur fut user_cost_myr) =
       fsub (fdiv (f64_of_int user_cost_myr) cur) (fdiv (f64_of_int user_cost_myr) fut) \<and>
     savings_box (cost_conversion cur fut user_cost_myr) =
       (if fgt (savings (cost_conversion cur fut user_cost_myr)) fzero
        then Savings (savings (cost_conversion cur fut user_cost_myr)) else no_advantage_message)"
    for cur fut user_cost_myr
    by (simp add: cost_conversion_def Let_def)
  have e: "estimated_cost (cost_conversion usd_4_70 usd_4_60 20000) =
      [Finite False (4678772884153191 / 2 ^ 40), Finite False (4780485338156522 / 2 ^ 40)]"
    using gen [of usd_4_70 usd_4_60 20000] by (simp only: a b)
  have sv: "savings (cost_conversion usd_4_70 usd_4_60 20000) = Finite True (101712454003331 / 2 ^ 40)"
    using gen [of usd_4_70 usd_4_60 20000] by (simp only: a b s)
  have "shown_as (estimated_cost (cost_conversion usd_4_70 usd_4_60 20000) ! 0) (425532 / 100)"
    unfolding e by (simp add: shown_as_def signed_def)
  moreover have "shown_as (estimated_cost (cost_conversion usd_4_70 usd_4_60 20000) ! 1) (434783 / 100)"
    unfolding e by (simp add: shown_as_def signed_def)
  moreover have "shown_as (savings (cost_conversion usd_4_70 usd_4_60 20000)) (- (9251 / 100))"
    unfolding sv by (simp add: shown_as_def signed_def)
  moreover have "savings_box (cost_conversion usd_4_70 usd_4_60 20000) = no_advantage_message"
    using gen [of usd_4_70 usd_4_60 20000] unfolding sv by (simp add: fzero_def signed_def)
  ultimately show ?thesis
    using gen [of cur fut user_cost_myr] by blast
qed

section \<open>A future average of zero\<close>

text \<open>
  Claim C3 says that a future average of zero is detected and reported in place of the
  division. The script has no such test: with \<open>avg_future = 0.0\<close>, a cost of 20000 MYR
  and the city Penang, the view is rendered in full, and the pay-later cost and the
  forecasted cost of every procedure are the quotients by zero, which are infinite.
\<close>

theorem zero_rate_counterexample:
  "is_zero fzero \<and>
   budget_planner usd_4_70 fzero 20000 ''Penang'' =
     Inr (cost_conversion usd_4_70 fzero 20000,
          [Info ''Island Hospital'', Info ''Gleneagles Penang'',
           Info ''Loh Guan Lye Specialists Centre'']) \<and>
   estimated_cost (cost_conversion usd_4_70 fzero 20000) ! 1 = Infinity False \<and>
   usd_forecasted (cost_conversion usd_4_70 fzero 20000) =
     [Infinity False, Infinity False, Infinity False, Infinity False]"
proof -
  have "budget_planner usd_4_70 fzero 20000 ''Penang'' =
     Inr (cost_conversion usd_4_70 fzero 20000,
          [Info ''Island Hospital'', Info ''Gleneagles Penang'',
           Info ''Loh Guan Lye Specialists Centre''])"
    by (simp add: budget_planner_def hospitals_lookup_def hospitals_def)
  moreover have "estimated_cost (cost_conversion usd_4_70 fzero 20000) ! 1 = Infinity False"
    by (simp add: usd_columns f64_20000 fzero_def)
  moreover have "usd_forecasted (cost_conversion usd_4_70 fzero 20000) =
     [Infinity False, Infinity False, Infinity False, Infinity False]"
    by (simp add: usd_columns Cost_MYR_exact fzero_def)
  ultimately show ?thesis
    by (simp add: is_zero_def fzero_def)
qed

text \<open>
  Claim C3, amended. When \<open>avg_future\<close> is a zero, the Budget view does not detect it:
  for every cost of at least 100 MYR and every city of the catalogue the view is
  rendered without error, the divisions by \<open>avg_future\<close> are performed, and the
  pay-later cost and all four forecasted procedure costs are the infinity that has the
  sign of the zero.
\<close>

theorem zero_rate_divides:
  assumes "is_zero fut" and "100 \<le> user_cost_myr" and "location \<in> set cities"
  shows "\<exists>sg hs. fut = Finite sg 0 \<and>
           budget_planner cur fut user_cost_myr location =
             Inr (cost_conversion cur fut user_cost_myr, map Info hs) \<and>
           estimated_cost (cost_conversion cur fut user_cost_myr) ! 1 = Infinity sg \<and>
           usd_forecasted (cost_conversion cur fut user_cost_myr) =
             [Infinity sg, Infinity sg, Infinity sg, Infinity sg]"
proof -
  obtain sg where fut: "fut = Finite sg 0"
    using assms(1) by (cases fut) (simp_all add: is_zero_def)
  obtain hs where hs: "hospitals_lookup location = Inr hs"
    using hospitals_lookup_present [OF assms(3)] by blast
  have "f64_of_int user_cost_myr = Infinity False \<or>
      (\<exists>m. 0 < m \<and> f64_of_int user_cost_myr = Finite False m)"
    using assms(2) by (intro f64_of_int_pos) simp
  then have "fdiv (f64_of_int user_cost_myr) fut = Infinity sg"
    using fut by auto
  then have "estimated_cost (cost_conversion cur fut user_cost_myr) ! 1 = Infinity sg"
    by (simp add: usd_columns)
  moreover have "usd_forecasted (cost_conversion cur fut user_cost_myr) =
      [Infinity sg, Infinity sg, Infinity sg, Infinity sg]"
    by (simp add: usd_columns Cost_MYR_exact fut)
  moreover have "budget_planner cur fut user_cost_myr location =
      Inr (cost_conversion cur fut user_cost_myr, map Info hs)"
    by (simp add: budget_planner_def hs)
  ultimately show ?thesis
    using fut by blast
qed

theorem zero_rate_divides_witness:
  "is_zero (Finite True 0) \<and> (100::int) \<le> 20000 \<and> ''Melaka'' \<in> set cities \<and>
   estimated_cost (cost_conversion usd_4_70 (Finite True 0) 20000) ! 1 = Infinity True"
  using zero_rate_divides [of "Finite True 0" 20000 "''Melaka''" usd_4_70]
  by (auto simp add: is_zero_def cities_def)

section \<open>Agreement of the two views\<close>

text \<open>
  Claim C10 says that the savings are positive exactly when \<open>avg_future > current_rate\<close>.
  Rounding breaks one direction: for the default cost of 20000 MYR, a current rate of
  \<open>4.700000000000001\<close> and a future average of \<open>4.700000000000002\<close>, the next double,
  both quotients round to the same double. The Market view shows the favorable message;
  the savings are zero and the Budget view reports no advantage.
\<close>

theorem favorability_counterexample:
  "is_f64 near_rate_low \<and> is_f64 near_rate_high \<and>
   fgt near_rate_low fzero \<and> fgt near_rate_high fzero \<and>
   fgt near_rate_high near_rate_low \<and>
   action_plan (market_insights near_rate_low near_rate_high) = favorable_message \<and>
   savings (cost_conversion near_rate_low near_rate_high 20000) = fzero \<and>
   \<not> fgt (savings (cost_conversion near_rate_low near_rate_high 20000)) fzero \<and>
   savings_box (cost_conversion near_rate_low near_rate_high 20000) = no_advantage_message"
proof -
  have gt: "fgt near_rate_high near_rate_low"
    by (simp add: near_rate_high_def near_rate_low_def signed_def)
  have a: "fdiv (f64_of_int 20000) near_rate_low = Finite False (4678772884153190 / 2 ^ 40)"
    using pay_near_low by (simp add: f64_20000 near_rate_low_def)
  have b: "fdiv (f64_of_int 20000) near_rate_high = Finite False (4678772884153190 / 2 ^ 40)"
    using pay_near_high by (simp add: f64_20000 near_rate_high_def)
  have sv: "savings (cost_conversion near_rate_low near_rate_high 20000) = fzero"
    unfolding usd_columns [THEN conjunct2, THEN conjunct2, THEN conjunct2, THEN conjunct1] a b
    by (simp add: fsub_def fzero_def signed_def)
  have "savings_box (cost_conversion near_rate_low near_rate_high 20000) = no_advantage_message"
    using usd_columns [of near_rate_low near_rate_high 20000] unfolding sv
    by (simp add: fzero_def signed_def)
  moreover have "action_plan (market_insights near_rate_low near_rate_high) = favorable_message"
    using gt by (simp add: market_insights_def)
  moreover have "fgt near_rate_low fzero" and "fgt near_rate_high fzero"
    by (simp_all add: near_rate_high_def near_rate_low_def signed_def fzero_def)
  ultimately show ?thesis
    using gt sv is_f64_near_low is_f64_near_high by (simp add: fzero_def signed_def)
qed

text \<open>
  Claim C10, amended. For every cost of at least 100 MYR and all strictly positive
  rates, the savings are positive exactly when the pay-today cost in USD is greater
  than the pay-later cost. Positive savings imply \<open>avg_future > current_rate\<close>, so that
  the Market view then shows the favorable message, and \<open>avg_future > current_rate\<close>
  implies that the savings are not negative. For a cost below \<open>2^53\<close>, the savings are
  positive exactly when \<open>avg_future > current_rate\<close> and the two costs in USD are
  different doubles.
\<close>

theorem savings_and_rates:
  assumes "100 \<le> user_cost_myr" and "is_f64 cur" and "is_f64 fut"
    and "fgt cur fzero" and "fgt fut fzero"
  shows "(fgt (savings (cost_conversion cur fut user_cost_myr)) fzero \<longleftrightarrow>
            fgt (estimated_cost (cost_conversion cur fut user_cost_myr) ! 0)
                (estimated_cost (cost_conversion cur fut user_cost_myr) ! 1)) \<and>
         (fgt (savings (cost_conversion cur fut user_cost_myr)) fzero \<longrightarrow>
            fgt fut cur \<and>
            action_plan (market_insights cur fut) = favorable_message \<and>
            savings_box (cost_conversion cur fut user_cost_myr) =
              Savings (savings (cost_conversion cur fut user_cost_myr))) \<and>
         (fgt fut cur \<longrightarrow>
            \<not> fgt fzero (savings (cost_conversion cur fut user_cost_myr))) \<and>
         (user_cost_myr < 2 ^ 53 \<longrightarrow>
            (fgt (savings (cost_conversion cur fut user_cost_myr)) fzero \<longleftrightarrow>
               fgt fut cur \<and>
               estimated_cost (cost_conversion cur fut user_cost_myr) ! 0 \<noteq>
               estimated_cost (cost_conversion cur fut user_cost_myr) ! 1))"
proof -
  define k where "k = f64_of_int user_cost_myr"
  define q0 where "q0 = fdiv k cur"
  define q1 where "q1 = fdiv k fut"
  have C: "k = Infinity False \<or> (\<exists>m. 0 < m \<and> k = Finite False m)"
    unfolding k_def using assms(1) by (intro f64_of_int_pos) simp
  note pc = positive_f64_cases [OF assms(2,4)]
  note pf = positive_f64_cases [OF assms(3,5)]
  have ec: "estimated_cost (cost_conversion cur fut user_cost_myr) ! 0 = q0"
      "estimated_cost (cost_conversion cur fut user_cost_myr) ! 1 = q1"
    and sv: "savings (cost_conversion cur fut user_cost_myr) = fsub q0 q1"
    and box: "savings_box (cost_conversion cur fut user_cost_myr) =
      (if fgt (fsub q0 q1) fzero then Savings (fsub q0 q1) else no_advantage_message)"
    by (simp_all add: usd_columns k_def q0_def q1_def)
  have d: "is_f64 q0" "is_f64 q1"
    unfolding q0_def q1_def k_def by (simp_all add: is_f64_fdiv is_f64_of_int assms(2,3))
  have one: "fgt (fsub q0 q1) fzero = fgt q0 q1"
    using d by (rule fsub_sign)
  have two: "fgt fut cur" if "fgt q0 q1"
  proof (rule ccontr)
    assume "\<not> fgt fut cur"
    then have "\<not> fgt (fsub q0 q1) fzero"
      unfolding q0_def q1_def using fdiv_antimono [OF C pc pf] by blast
    then show False
      using that one by simp
  qed
  have rev: "\<not> fgt q1 q0" if "fgt fut cur"
  proof -
    have "\<not> fgt cur fut"
      using that pc pf by (auto simp add: signed_def)
    then have "\<not> fgt (fsub q1 q0) fzero"
      unfolding q0_def q1_def using fdiv_antimono [OF C pf pc] by blast
    then show ?thesis
      using fsub_sign [OF d(2) d(1)] by simp
  qed
  have three: "\<not> fgt fzero (fsub q0 q1)" if "fgt fut cur"
    using rev [OF that] fsub_sign [OF d(2) d(1)] by (simp add: fsub_swap)
  have four: "fgt q0 q1 \<longleftrightarrow> fgt fut cur \<and> q0 \<noteq> q1" if "user_cost_myr < 2 ^ 53"
  proof -
    have "k = Finite False (of_int user_cost_myr)"
      unfolding k_def using assms(1) that by (intro f64_of_int_exact) simp_all
    moreover have "(0::rat) < of_int user_cost_myr"
      using assms(1) by simp
    ultimately have f0: "q0 = Infinity False \<or> (\<exists>z. q0 = Finite False z)"
      and f1: "q1 = Infinity False \<or> (\<exists>z. q1 = Finite False z)"
      unfolding q0_def q1_def using fdiv_positive_form pc pf by simp_all
    show ?thesis
    proof
      assume g: "fgt q0 q1"
      then have "q0 \<noteq> q1"
        using fgt_irrefl by auto
      then show "fgt fut cur \<and> q0 \<noteq> q1"
        using two [OF g] by simp
    next
      assume "fgt fut cur \<and> q0 \<noteq> q1"
      then show "fgt q0 q1"
        using rev fgt_trichotomy [OF f0 f1] by blast
    qed
  qed
  show ?thesis
    unfolding ec sv box using one two three four
    by (auto simp add: market_insights_def)
qed

theorem savings_and_rates_witness:
  "(100::int) \<le> 20000 \<and> is_f64 usd_4_60 \<and> is_f64 usd_4_70 \<and>
   fgt usd_4_60 fzero \<and> fgt usd_4_70 fzero \<and> (20000::int) < 2 ^ 53 \<and>
   fgt usd_4_70 usd_4_60 \<and>
   estimated_cost (cost_conversion usd_4_60 usd_4_70 20000) ! 0 \<noteq>
     estimated_cost (cost_conversion usd_4_60 usd_4_70 20000) ! 1 \<and>
   fgt (savings (cost_conversion usd_4_60 usd_4_70 20000)) fzero \<and>
   action_plan (market_insights usd_4_60 usd_4_70) = favorable_message"
proof -
  have p: "fgt usd_4_60 fzero" "fgt usd_4_70 fzero"
    by (simp_all add: f64_460 f64_470 fzero_def signed_def)
  have gt: "fgt usd_4_70 usd_4_60"
    by (simp add: f64_460 f64_470 signed_def)
  have x: "fdiv (f64_of_int 20000) usd_4_70 = Finite False (4678772884153191 / 2 ^ 40)"
    using pay_today_470 by (simp add: f64_20000 f64_470)
  have y: "fdiv (f64_of_int 20000) usd_4_60 = Finite False (4780485338156522 / 2 ^ 40)"
    using pay_later_460 by (simp add: f64_20000 f64_460)
  have ne: "estimated_cost (cost_conversion usd_4_60 usd_4_70 20000) ! 0 \<noteq>
      estimated_cost (cost_conversion usd_4_60 usd_4_70 20000) ! 1"
    by (simp add: usd_columns x y)
  have c: "(100::int) \<le> 20000" and b: "(20000::int) < 2 ^ 53"
    by simp_all
  note t = savings_and_rates [OF c is_f64_460 is_f64_470 p]
  have s: "fgt (savings (cost_conversion usd_4_60 usd_4_70 20000)) fzero"
    using t b gt ne by blast
  then have "action_plan (market_insights usd_4_60 usd_4_70) = favorable_message"
    using t by blast
  then show ?thesis
    using c b is_f64_460 is_f64_470 p gt ne s by blast
qed

section \<open>The round trip of the conversion\<close>

text \<open>
  Claim C9 says that \<open>C / R * R\<close> is \<open>C\<close> up to rounding for every nonzero rate. For the
  least positive double as the rate, the quotient of the first procedure cost (2000 MYR)
  overflows to infinity, and so does the product with the rate.
\<close>

theorem round_trip_counterexample:
  "is_f64 least_double \<and> \<not> is_zero least_double \<and>
   usd_current (cost_conversion least_double usd_4_70 20000) ! 0 = Infinity False \<and>
   fmul (usd_current (cost_conversion least_double usd_4_70 20000) ! 0) least_double =
     Infinity False"
proof -
  have "usd_current (cost_conversion least_double usd_4_70 20000) ! 0 = Infinity False"
    using overflow_2000 by (simp add: usd_columns Cost_MYR_exact)
  moreover have "fmul (Infinity False) least_double = Infinity False"
    by (simp add: least_double_def)
  moreover have "\<not> is_zero least_double"
    by (simp add: is_zero_def least_double_def)
  ultimately show ?thesis
    using is_f64_least by simp
qed

text \<open>
  Claim C9, amended. For every procedure cost \<open>C\<close> of the table and every rate \<open>R\<close> of
  magnitude between \<open>2^-1000\<close> and \<open>2^1000\<close>, the USD column entry \<open>C / R\<close> times
  \<open>R\<close> is finite and differs from \<open>C\<close> by at most \<open>C / 2^51\<close>; this holds for the
  column at \<open>current_rate\<close> and for the column at \<open>avg_future\<close>.
\<close>

theorem conversion_round_trip:
  assumes "i < length Cost_MYR" and "1 / 2 ^ 1000 \<le> r" and "r \<le> 2 ^ 1000"
  shows "(\<exists>z. fmul (usd_current (cost_conversion (Finite t r) fut c) ! i) (Finite t r) =
              Finite False z \<and>
            \<bar>z - of_int (Cost_MYR ! i)\<bar> * 2 ^ 51 \<le> of_int (Cost_MYR ! i)) \<and>
         (\<exists>z. fmul (usd_forecasted (cost_conversion cur (Finite t r) c) ! i) (Finite t r) =
              Finite False z \<and>
            \<bar>z - of_int (Cost_MYR ! i)\<bar> * 2 ^ 51 \<le> of_int (Cost_MYR ! i))"
proof -
  define k where "k = Cost_MYR ! i"
  have "k \<in> set Cost_MYR"
    using assms(1) by (simp add: k_def)
  then have bounds: "1 \<le> k" "k \<le> 2 ^ 16"
    by (auto simp add: Cost_MYR_def)
  then have ex: "f64_of_int k = Finite False (of_int k)"
    by (intro f64_of_int_exact) simp_all
  have "(1::rat) \<le> of_int k" and "(of_int k :: rat) \<le> 2 ^ 16"
    using bounds by simp_all
  then obtain z where z: "fmul (fdiv (Finite False (of_int k)) (Finite t r)) (Finite t r) = Finite False z"
      "\<bar>z - of_int k\<bar> * 2 ^ 51 \<le> of_int k"
    using fdiv_int_error [OF _ _ assms(2,3), of "of_int k" t] by blast
  have "usd_current (cost_conversion (Finite t r) fut c) ! i = fdiv (f64_of_int k) (Finite t r)"
    and "usd_forecasted (cost_conversion cur (Finite t r) c) ! i = fdiv (f64_of_int k) (Finite t r)"
    using assms(1) by (simp_all add: usd_columns k_def)
  then show ?thesis
    using z ex unfolding k_def by auto
qed

theorem conversion_round_trip_witness:
  "0 < length Cost_MYR \<and>
   usd_4_70 = Finite False (5291729562160333 / 2 ^ 50) \<and>
   (1::rat) / 2 ^ 1000 \<le> 5291729562160333 / 2 ^ 50 \<and>
   (5291729562160333::rat) / 2 ^ 50 \<le> 2 ^ 1000 \<and>
   (\<exists>z. fmul (usd_current (cost_conversion usd_4_70 usd_4_60 20000) ! 0) usd_4_70 =
        Finite False z \<and> \<bar>z - 2000\<bar> * 2 ^ 51 \<le> 2000)"
  using conversion_round_trip [of 0 "5291729562160333 / 2 ^ 50" False usd_4_60 20000]
  by (simp add: f64_470 Cost_MYR_def)

end
